theory Spec2Isabelle
  imports Main "HOL-Library.Sublist"
begin

text \<open>
  A model of the analysis core of the leak-detection crawler: the leak correlator
  \<^verbatim>\<open>findValue\<close> and the report \<^verbatim>\<open>getSummary\<close> of \<^verbatim>\<open>src/analysis.ts\<close>, and the
  shadow-piercing query handler and the remote object unwrapper of
  \<^verbatim>\<open>src/puppeteerUtils.ts\<close>. The definitions of the first sections follow the source; the
  sections after them state the properties of the specification and prove or refute them.
\<close>

section \<open>Promises\<close>

text \<open>
  A settled promise is a value of \<open>'e + 'a\<close>: \<open>Inl e\<close> is a rejection with reason
  \<open>e\<close>, \<open>Inr v\<close> a fulfilment with \<open>v\<close>. \<^verbatim>\<open>p.then(f)\<close> with a callback that does
  not throw passes a rejection on and applies \<open>f\<close> to a fulfilment value.
\<close>

definition promise_then :: "('a \<Rightarrow> 'b) \<Rightarrow> 'e + 'a \<Rightarrow> 'e + 'b" where
  "promise_then f p = (case p of Inl e \<Rightarrow> Inl e | Inr v \<Rightarrow> Inr (f v))"

text \<open>
  \<^verbatim>\<open>Promise.all(ps)\<close>. The list \<open>ps\<close> holds how each input promise settles, in array
  order; \<open>order\<close> lists the indices of the promises in the order in which they settle
  (the scheduling the program has no control over). Each fulfilment is stored in the slot
  of its own index; the first rejection met rejects the result at once. When every slot is
  filled the result fulfils with the slots in array order; when the settle order is used up
  with a slot still empty, the result stays pending, which is \<open>None\<close>.
\<close>

fun settle :: "('e + 'a) list \<Rightarrow> nat list \<Rightarrow> 'a option list \<Rightarrow> 'e + 'a option list" where
  "settle ps [] slots = Inr slots"
| "settle ps (i # order) slots =
     (if i < length ps
      then (case ps ! i of
              Inl e \<Rightarrow> Inl e
            | Inr v \<Rightarrow> settle ps order (slots[i := Some v]))
      else settle ps order slots)"

definition promise_all :: "('e + 'a) list \<Rightarrow> nat list \<Rightarrow> ('e + 'a list) option" where
  "promise_all ps order =
     (case settle ps order (replicate (length ps) None) of
        Inl e \<Rightarrow> Some (Inl e)
      | Inr slots \<Rightarrow> map_option Inr (those slots))"

section \<open>Leak correlator: \<^verbatim>\<open>findValue\<close> (src/analysis.ts)\<close>

datatype part = Url | Header | Body

text \<open>\<^verbatim>\<open>interface FindEntry\<close>: an optional field is an \<open>option\<close>.\<close>

record FindEntry =
  requestIndex :: "nat option"
  visitedTargetIndex :: "nat option"
  part :: part
  header :: "string option"
  encodings :: "string list"

text \<open>
  Modelled from the spec: \<^verbatim>\<open>ThirdPartyInfo\<close> of \<^verbatim>\<open>main.ts\<close>, which is not among the
  sources, the classification that a request, a visited target or the script of a stack
  frame may carry; both fields are optional. A request and a visited target both
  have a \<^verbatim>\<open>url\<close> as well (\<open>Location\<close>).
\<close>

record ThirdPartyInfo =
  thirdParty :: "bool option"
  tracker :: "bool option"

record Location = ThirdPartyInfo +
  url :: string

text \<open>
  The fields of a request record that \<^verbatim>\<open>analysis.ts\<close> reads. \<open>requestHeaders\<close> is the
  header object as \<^verbatim>\<open>Object.entries\<close> enumerates it. \<open>'ts\<close> is the type of timestamps.
\<close>

record 'ts RequestData = Location +
  requestHeaders :: "(string \<times> string) list option"
  postData :: "string option"
  wallTime :: "'ts option"
  stack :: "string list option"

text \<open>
  \<^verbatim>\<open>searcher.findValueIn(Buffer.from(s))\<close> is a parameter \<open>findValueIn\<close>: how the search over
  the bytes of \<open>s\<close> settles, a rejection or the encoder list (\<open>None\<close> is \<^verbatim>\<open>null\<close>).
  \<open>str\<close> is \<^verbatim>\<open>String\<close> on an encoder.
\<close>

type_synonym ('e, 'enc) searcher = "string \<Rightarrow> 'e + 'enc list option"

text \<open>\<^verbatim>\<open>.then(encoders => encoders && {..., encodings: encoders.map(String)})\<close>\<close>

definition found :: "('enc \<Rightarrow> string) \<Rightarrow> (string list \<Rightarrow> FindEntry)
    \<Rightarrow> 'e + 'enc list option \<Rightarrow> 'e + FindEntry option" where
  "found str mk p = promise_then (map_option (\<lambda>encoders. mk (map str encoders))) p"

definition url_entry :: "nat \<Rightarrow> string list \<Rightarrow> FindEntry" where
  "url_entry i encs = \<lparr>requestIndex = Some i, visitedTargetIndex = None, part = Url,
     header = None, encodings = encs\<rparr>"

definition header_entry :: "nat \<Rightarrow> string \<Rightarrow> string list \<Rightarrow> FindEntry" where
  "header_entry i name encs = \<lparr>requestIndex = Some i, visitedTargetIndex = None, part = Header,
     header = Some name, encodings = encs\<rparr>"

definition body_entry :: "nat \<Rightarrow> string list \<Rightarrow> FindEntry" where
  "body_entry i encs = \<lparr>requestIndex = Some i, visitedTargetIndex = None, part = Body,
     header = None, encodings = encs\<rparr>"

definition target_entry :: "nat \<Rightarrow> string list \<Rightarrow> FindEntry" where
  "target_entry j encs = \<lparr>requestIndex = None, visitedTargetIndex = Some j, part = Url,
     header = None, encodings = encs\<rparr>"

text \<open>
  The callback of \<^verbatim>\<open>requests.flatMap\<close>: the searches of one request. The last element is
  \<^verbatim>\<open>request.postData && ...\<close>: an absent or empty body is a falsy plain value, which
  \<^verbatim>\<open>Promise.all\<close> passes through (\<open>Inr None\<close>) and \<^verbatim>\<open>filter(notFalsy)\<close> drops.
\<close>

definition request_searches :: "('e, 'enc) searcher \<Rightarrow> ('enc \<Rightarrow> string)
    \<Rightarrow> nat \<times> ('ts, 'x) RequestData_scheme \<Rightarrow> ('e + FindEntry option) list" where
  "request_searches findValueIn str = (\<lambda>(i, request).
     [found str (url_entry i) (findValueIn (url request))]
     @ map (\<lambda>(name, v). found str (header_entry i name) (findValueIn v))
         (case requestHeaders request of None \<Rightarrow> [] | Some hs \<Rightarrow> hs)
     @ [case postData request of
          None \<Rightarrow> Inr None
        | Some d \<Rightarrow> if d = [] then Inr None else found str (body_entry i) (findValueIn d)])"

definition target_searches :: "('e, 'enc) searcher \<Rightarrow> ('enc \<Rightarrow> string)
    \<Rightarrow> ('ts, 'x) RequestData_scheme list \<Rightarrow> string list \<Rightarrow> ('e + FindEntry option) list" where
  "target_searches findValueIn str requests visitedTargets =
     map (\<lambda>(j, u). found str (target_entry j) (findValueIn u))
       (filter (\<lambda>(j, u). u \<notin> set (map url requests)) (enumerate 0 visitedTargets))"

text \<open>The array handed to \<^verbatim>\<open>Promise.all\<close>.\<close>

definition searches :: "('e, 'enc) searcher \<Rightarrow> ('enc \<Rightarrow> string)
    \<Rightarrow> ('ts, 'x) RequestData_scheme list \<Rightarrow> string list \<Rightarrow> ('e + FindEntry option) list" where
  "searches findValueIn str requests visitedTargets =
     concat (map (request_searches findValueIn str) (enumerate 0 requests))
     @ target_searches findValueIn str requests visitedTargets"

text \<open>
  Modelled from the spec: \<^verbatim>\<open>notFalsy\<close> of \<^verbatim>\<open>utils.ts\<close>, which is not among the sources.
  \<^verbatim>\<open>.filter(notFalsy)\<close> drops the falsy elements of the fulfilled array: a search without
  a finding contributes nothing.
\<close>

definition notFalsy :: "'a option list \<Rightarrow> 'a list" where
  "notFalsy xs = List.map_filter id xs"

text \<open>
  \<^verbatim>\<open>findValue\<close>. The result is \<open>None\<close> while the promise is pending, \<open>Some (Inl e)\<close> when
  it rejects, \<open>Some (Inr entries)\<close> when it fulfils.
\<close>

definition findValue :: "('e, 'enc) searcher \<Rightarrow> ('enc \<Rightarrow> string) \<Rightarrow> nat list
    \<Rightarrow> ('ts, 'x) RequestData_scheme list \<Rightarrow> string list \<Rightarrow> ('e + FindEntry list) option" where
  "findValue findValueIn str order requests visitedTargets =
     map_option (promise_then notFalsy)
       (promise_all (searches findValueIn str requests visitedTargets) order)"

section \<open>Shadow-piercing query handler (src/puppeteerUtils.ts)\<close>

text \<open>
  The DOM tree. An element carries a label (what \<^verbatim>\<open>matches\<close> looks at), the child nodes of
  its shadow root when the original \<^verbatim>\<open>shadowRoot\<close> accessor returns one (an open shadow
  root; the accessor returns \<^verbatim>\<open>null\<close> for none and for a closed one), and its child nodes.
  \<open>Other\<close> is a node that is not an element: a document, a document fragment, a shadow
  root, a text node, a comment.
\<close>

datatype 'a node =
    Element 'a "'a node list option" "'a node list"
  | Other "'a node list"

text \<open>\<^verbatim>\<open>node instanceof elementProto.constructor\<close>\<close>

fun isElement :: "'a node \<Rightarrow> bool" where
  "isElement (Element a s cs) = True"
| "isElement (Other cs) = False"

text \<open>\<^verbatim>\<open>shadowRoot.call(node)\<close>: the shadow root is a node of its own, not an element.\<close>

fun shadowRoot :: "'a node \<Rightarrow> 'a node option" where
  "shadowRoot (Element a s cs) = map_option Other s"
| "shadowRoot (Other cs) = None"

fun childNodes :: "'a node \<Rightarrow> 'a node list" where
  "childNodes (Element a s cs) = cs"
| "childNodes (Other cs) = cs"

text \<open>\<^verbatim>\<open>matches.call(child, selector)\<close>, with the selector engine \<open>m\<close> a parameter.\<close>

fun matches :: "('a \<Rightarrow> string \<Rightarrow> bool) \<Rightarrow> 'a node \<Rightarrow> string \<Rightarrow> bool" where
  "matches m (Element a s cs) selector = m a selector"
| "matches m (Other cs) selector = False"

text \<open>
  \<^verbatim>\<open>document.createTreeWalker(node, NodeFilter.SHOW_ELEMENT)\<close>: \<^verbatim>\<open>nextNode()\<close> runs through
  the descendants of \<open>node\<close> in document order (\<open>node\<close> itself is not among them) and
  stops at the elements; a node that is not shown is skipped, its children are still visited.
\<close>

fun descendants :: "'a node \<Rightarrow> 'a node list" where
  "descendants (Element a s cs) = concat (map (\<lambda>c. c # descendants c) cs)"
| "descendants (Other cs) = concat (map (\<lambda>c. c # descendants c) cs)"

definition treeWalker :: "'a node \<Rightarrow> 'a node list" where
  "treeWalker node = filter isElement (descendants node)"

lemma size_member: "c \<in> set cs \<Longrightarrow> size c \<le> size_list size cs"
  by (induction cs) auto

lemma size_child: "c \<in> set (childNodes n) \<Longrightarrow> size c < size n"
  using size_member [of c "childNodes n"] by (cases n) auto

lemma size_shadowRoot: "shadowRoot n = Some s \<Longrightarrow> size s < size n"
  by (cases n) auto

lemma size_descendants: "c \<in> set (descendants n) \<Longrightarrow> size c < size n"
proof (induction n arbitrary: c rule: measure_induct_rule [where f = size])
  case (less n)
  from less.prems obtain k where k: "k \<in> set (childNodes n)" "c = k \<or> c \<in> set (descendants k)"
    by (cases n) auto
  have "size k < size n" using k(1) by (rule size_child)
  with less.IH [of k c] k(2) show ?case by auto
qed

text \<open>
  The generator \<^verbatim>\<open>examineChildren\<close>, as the list of the elements it yields when it is
  run to its end.
\<close>

function examineChildren :: "('a \<Rightarrow> string \<Rightarrow> bool) \<Rightarrow> string \<Rightarrow> 'a node \<Rightarrow> 'a node list" where
  "examineChildren m selector node =
     (if isElement node
      then (case shadowRoot node of
              Some nodeShadow \<Rightarrow> examineChildren m selector nodeShadow
            | None \<Rightarrow> [])
      else [])
     @ concat (map (\<lambda>child.
         (if matches m child selector then [child] else [])
         @ (case shadowRoot child of
              Some nodeShadow \<Rightarrow> examineChildren m selector nodeShadow
            | None \<Rightarrow> []))
       (treeWalker node))"
  by pat_completeness auto
termination
proof (relation "measure (\<lambda>(m, selector, node). size node)")
  show "wf (measure (\<lambda>(m, selector, node). size node))" by simp
next
  fix m :: "'a \<Rightarrow> string \<Rightarrow> bool" and selector :: string and node nodeShadow :: "'a node"
  assume "isElement node" "shadowRoot node = Some nodeShadow"
  then show "((m, selector, nodeShadow), (m, selector, node)) \<in> measure (\<lambda>(m, selector, node). size node)"
    by (simp add: size_shadowRoot)
next
  fix m :: "'a \<Rightarrow> string \<Rightarrow> bool" and selector :: string and node child nodeShadow :: "'a node"
  assume "child \<in> set (treeWalker node)" "shadowRoot child = Some nodeShadow"
  then have "size nodeShadow < size child" "size child < size node"
    by (auto simp: treeWalker_def size_shadowRoot size_descendants)
  then show "((m, selector, nodeShadow), (m, selector, node)) \<in> measure (\<lambda>(m, selector, node). size node)"
    by simp
qed

declare examineChildren.simps [simp del]

text \<open>\<^verbatim>\<open>return [...examineChildren(node)]\<close>\<close>

definition queryAll :: "('a \<Rightarrow> string \<Rightarrow> bool) \<Rightarrow> 'a node \<Rightarrow> string \<Rightarrow> 'a node list" where
  "queryAll m node selector = examineChildren m selector node"


text \<open>
  \<^verbatim>\<open>const [first] = examineChildren(node)\<close> takes one value from the generator and closes
  it: the body of the generator runs up to its first \<^verbatim>\<open>yield\<close> and no further.
  \<open>examineChildren_first\<close> is that run, \<open>walk_first\<close> the \<^verbatim>\<open>while\<close> loop over the tree
  walker inside it; \<open>None\<close> is a generator that ends without a value. \<open>max_size\<close> only
  serves the termination proof.
\<close>

fun max_size :: "'a node list \<Rightarrow> nat" where
  "max_size [] = 0"
| "max_size (n # ns) = max (size n) (max_size ns)"

lemma max_size_bound: "\<forall>c \<in> set cs. size c < k \<Longrightarrow> max_size cs \<le> k"
  by (induction cs) auto

function examineChildren_first :: "('a \<Rightarrow> string \<Rightarrow> bool) \<Rightarrow> string \<Rightarrow> 'a node \<Rightarrow> 'a node option"
  and walk_first :: "('a \<Rightarrow> string \<Rightarrow> bool) \<Rightarrow> string \<Rightarrow> 'a node list \<Rightarrow> 'a node option" where
  "examineChildren_first m selector node =
     (case (if isElement node
            then (case shadowRoot node of
                    Some nodeShadow \<Rightarrow> examineChildren_first m selector nodeShadow
                  | None \<Rightarrow> None)
            else None) of
        Some first \<Rightarrow> Some first
      | None \<Rightarrow> walk_first m selector (treeWalker node))"
| "walk_first m selector [] = None"
| "walk_first m selector (child # rest) =
     (if matches m child selector then Some child
      else (case (case shadowRoot child of
                    Some nodeShadow \<Rightarrow> examineChildren_first m selector nodeShadow
                  | None \<Rightarrow> None) of
              Some first \<Rightarrow> Some first
            | None \<Rightarrow> walk_first m selector rest))"
  by pat_completeness auto
termination
proof (relation "measures
    [\<lambda>x. case x of Inl (m, selector, node) \<Rightarrow> 2 * size node + 2
            | Inr (m, selector, nodes) \<Rightarrow> 2 * max_size nodes + 1,
     \<lambda>x. case x of Inl (m, selector, node) \<Rightarrow> 0
            | Inr (m, selector, nodes) \<Rightarrow> length nodes]", goal_cases)
  case 1
  show ?case by simp
next
  case (2 m selector node nodeShadow)
  then show ?case by (simp add: size_shadowRoot)
next
  case (3 m selector node)
  have "max_size (treeWalker node) \<le> size node"
    by (rule max_size_bound) (simp add: treeWalker_def size_descendants)
  then show ?case by simp
next
  case (4 m selector child rest nodeShadow)
  then have "size nodeShadow < size child" by (simp add: size_shadowRoot)
  then have "2 * size nodeShadow + 2 < 2 * max_size (child # rest) + 1" by simp
  then show ?case by simp
next
  case (5 m selector child rest)
  have "max_size rest \<le> max_size (child # rest)" by simp
  then show ?case by auto
qed

declare examineChildren_first.simps [simp del]

text \<open>\<^verbatim>\<open>return first ?? null\<close>\<close>

definition queryOne :: "('a \<Rightarrow> string \<Rightarrow> bool) \<Rightarrow> 'a node \<Rightarrow> string \<Rightarrow> 'a node option" where
  "queryOne m node selector = examineChildren_first m selector node"



section \<open>Remote object unwrapper (src/puppeteerUtils.ts)\<close>

text \<open>
  \<^verbatim>\<open>handle.remoteObject()\<close>: the fields that \<^verbatim>\<open>unwrapHandleEx\<close> reads. \<open>subtype\<close> and
  \<open>className\<close> may be absent.
\<close>

record RemoteObject =
  type :: string
  subtype :: "string option"
  className :: "string option"

text \<open>
  A handle with what its protocol calls settle to: \<^verbatim>\<open>getProperties()\<close> (the entries of the
  returned map, in iteration order) and \<^verbatim>\<open>jsonValue()\<close>; \<open>Inl\<close> is a rejection. A handle
  is a finite tree, so the object graph behind it has no cycle.
\<close>

datatype ('e, 'v) JSHandle =
  JSHandle (remoteObject: RemoteObject)
    (getProperties: "'e + (string \<times> ('e, 'v) JSHandle) list")
    (jsonValue: "'e + 'v")

text \<open>
  The unwrapped value: the handle itself, \<^verbatim>\<open>null\<close>, the value \<^verbatim>\<open>jsonValue()\<close> gave, the
  object \<^verbatim>\<open>Object.fromEntries\<close> builds (its entries), or an array.
\<close>

datatype ('e, 'v) Unwrapped =
    Handle "('e, 'v) JSHandle"
  | Null
  | Json 'v
  | Object "(string \<times> ('e, 'v) Unwrapped) list"
  | Array "('e, 'v) Unwrapped list"

text \<open>
  \<^verbatim>\<open>await Promise.all(...)\<close> over promises that all settle: it rejects when one of them
  rejects. Which reason wins among several rejections depends on timing; the model takes the
  first in array order.
\<close>

fun await_all :: "('e + 'a) list \<Rightarrow> 'e + 'a list" where
  "await_all [] = Inr []"
| "await_all (p # ps) =
     (case p of
        Inl e \<Rightarrow> Inl e
      | Inr v \<Rightarrow> (case await_all ps of Inl e \<Rightarrow> Inl e | Inr vs \<Rightarrow> Inr (v # vs)))"

lemma size_property: "(k, v) \<in> set props \<Longrightarrow> size v < Suc (size_list (size_prod (\<lambda>x. 0) size) props)"
  by (induction props) auto

lemma size_getProperties:
  "getProperties handle = Inr props \<Longrightarrow> (k, v) \<in> set props \<Longrightarrow> size v < size handle"
  using size_property [of k v props] by (cases handle) auto

text \<open>\<^verbatim>\<open>unwrapHandleEx(handle, shouldUnwrap)\<close> with the predicate given.\<close>

function unwrapHandleEx :: "(string option \<Rightarrow> bool) \<Rightarrow> ('e, 'v) JSHandle \<Rightarrow> 'e + ('e, 'v) Unwrapped" where
  "unwrapHandleEx shouldUnwrap handle =
     (if type (remoteObject handle) \<in> set [''function'', ''symbol''] then Inr (Handle handle)
      else if type (remoteObject handle) = ''object'' then
        (if subtype (remoteObject handle) \<in> set [None, Some ''proxy''] then
           (if shouldUnwrap (className (remoteObject handle)) then
              (case getProperties handle of
                 Inl e \<Rightarrow> Inl e
               | Inr props \<Rightarrow>
                   promise_then Object (await_all (map (\<lambda>(k, v).
                     promise_then (Pair k) (unwrapHandleEx shouldUnwrap v)) props)))
            else Inr (Handle handle))
         else if subtype (remoteObject handle) = Some ''null'' then Inr Null
         else if subtype (remoteObject handle) = Some ''array'' then
           (case getProperties handle of
              Inl e \<Rightarrow> Inl e
            | Inr props \<Rightarrow>
                promise_then Array (await_all (map (\<lambda>(k, v).
                  unwrapHandleEx shouldUnwrap v) props)))
         else Inr (Handle handle))
      else promise_then Json (jsonValue handle))"
  by pat_completeness auto
termination
proof (relation "measure (\<lambda>(shouldUnwrap, handle). size handle)", goal_cases)
  case 1
  show ?case by simp
next
  case (2 shouldUnwrap handle props kv k v)
  then show ?case using size_getProperties [of handle props k v] by simp
next
  case (3 shouldUnwrap handle props kv k v)
  then show ?case using size_getProperties [of handle props k v] by simp
qed

declare unwrapHandleEx.simps [simp del]

text \<open>\<^verbatim>\<open>unwrapHandle(handle)\<close> is \<^verbatim>\<open>unwrapHandleEx(handle, () => true)\<close>.\<close>

definition unwrapHandle :: "('e, 'v) JSHandle \<Rightarrow> 'e + ('e, 'v) Unwrapped" where
  "unwrapHandle handle = unwrapHandleEx (\<lambda>className. True) handle"

text \<open>
  The default value of the parameter \<^verbatim>\<open>shouldUnwrap\<close>,
  \<^verbatim>\<open>className => ['Object', 'Proxy'].includes(className)\<close>, and \<^verbatim>\<open>unwrapHandleEx(handle)\<close>
  called without a predicate.
\<close>

definition defaultShouldUnwrap :: "string option \<Rightarrow> bool" where
  "defaultShouldUnwrap = (\<lambda>className. className \<in> set [Some ''Object'', Some ''Proxy''])"

definition unwrapHandleEx_default :: "('e, 'v) JSHandle \<Rightarrow> 'e + ('e, 'v) Unwrapped" where
  "unwrapHandleEx_default handle = unwrapHandleEx defaultShouldUnwrap handle"


section \<open>Report: \<^verbatim>\<open>getSummary\<close> (src/analysis.ts)\<close>

subsection \<open>Text\<close>

text \<open>
  The report is a string of bytes; a character outside ASCII stands as its UTF-8 bytes.
  \<^verbatim>\<open>write(str)\<close> appends \<open>str\<close> to the report, \<^verbatim>\<open>writeln(str)\<close> appends \<open>str\<close> and a
  line feed, and the result is \<^verbatim>\<open>strings.join('')\<close>: every part of the model returns the
  text it appends.
\<close>

definition newline :: string where
  "newline = [CHR 0x0A]"

definition tab :: string where
  "tab = [CHR 0x09]"

definition nul :: string where
  "nul = [CHR 0x00]"

definition dquote :: string where
  "dquote = [CHR 0x22]"

definition writeln :: "string \<Rightarrow> string" where
  "writeln str = str @ newline"

definition emoji_watch :: string where
  "emoji_watch = [CHR 0xE2, CHR 0x8C, CHR 0x9A, CHR 0xEF, CHR 0xB8, CHR 0x8F]"

definition emoji_spy :: string where
  "emoji_spy = [CHR 0xF0, CHR 0x9F, CHR 0x95, CHR 0xB5]"

definition emoji_warning :: string where
  "emoji_warning = [CHR 0xE2, CHR 0x9A, CHR 0xA0, CHR 0xEF, CHR 0xB8, CHR 0x8F]"




definition emoji_info :: string where
  "emoji_info = [CHR 0xE2, CHR 0x84, CHR 0xB9, CHR 0xEF, CHR 0xB8, CHR 0x8F]"

definition emoji_outbox :: string where
  "emoji_outbox = [CHR 0xF0, CHR 0x9F, CHR 0x96, CHR 0x85]"

definition emoji_check :: string where
  "emoji_check = [CHR 0xE2, CHR 0x9C, CHR 0x94, CHR 0xEF, CHR 0xB8, CHR 0x8F]"



text \<open>The repeat marker of the frame stack, a downwards arrow.\<close>

definition arrow_down :: string where
  "arrow_down = [CHR 0xE2, CHR 0x86, CHR 0x93]"







text \<open>\<^verbatim>\<open>xs.join(sep)\<close> on an array of strings.\<close>

fun join :: "string \<Rightarrow> string list \<Rightarrow> string" where
  "join sep [] = []"
| "join sep [x] = x"
| "join sep (x # y # ys) = x @ sep @ join sep (y # ys)"

text \<open>A natural number in a template string: its decimal digits.\<close>

fun digits :: "nat \<Rightarrow> string" where
  "digits n = (if n < 10 then [char_of (48 + n)] else digits (n div 10) @ [char_of (48 + n mod 10)])"

declare digits.simps [simp del]

subsection \<open>Errors\<close>

text \<open>
  The only exception \<^verbatim>\<open>getSummary\<close> can raise by itself is the \<^verbatim>\<open>TypeError\<close> of reading a
  property of \<^verbatim>\<open>undefined\<close> or iterating over it; a non-null assertion (\<^verbatim>\<open>!\<close>) checks
  nothing at run time. \<open>try_map f xs\<close> is a loop or an \<^verbatim>\<open>Array.map\<close> whose body \<open>f\<close> may
  throw, \<open>write_each\<close> a loop whose body writes.
\<close>

datatype error = TypeError

fun try_map :: "('a \<Rightarrow> error + 'b) \<Rightarrow> 'a list \<Rightarrow> error + 'b list" where
  "try_map f [] = Inr []"
| "try_map f (x # xs) =
     (case f x of
        Inl e \<Rightarrow> Inl e
      | Inr y \<Rightarrow> (case try_map f xs of Inl e \<Rightarrow> Inl e | Inr ys \<Rightarrow> Inr (y # ys)))"

definition write_each :: "('a \<Rightarrow> error + string) \<Rightarrow> 'a list \<Rightarrow> error + string" where
  "write_each f xs = (case try_map f xs of Inl e \<Rightarrow> Inl e | Inr ss \<Rightarrow> Inr (concat ss))"

subsection \<open>The crawl output\<close>

text \<open>
  Modelled from the spec: the types \<^verbatim>\<open>OutputFile\<close> and \<^verbatim>\<open>SavedCallEx\<close> of \<^verbatim>\<open>main.ts\<close> and
  the events and options of \<^verbatim>\<open>FieldsCollector.ts\<close>, which are not among the sources. The
  records hold the fields that \<^verbatim>\<open>getSummary\<close> reads, optional where the code tests or
  asserts their presence. Where a name is used by two records the later one has a prefix:
  \<open>leakType\<close> is \<^verbatim>\<open>leak.type\<close>, \<open>leakTime\<close> is \<^verbatim>\<open>leak.time\<close> of a password leak,
  \<open>attrsFrameStack\<close> is \<^verbatim>\<open>leak.attrs?.frameStack\<close>, \<open>fieldType\<close>, \<open>fieldValue\<close> and
  \<open>callTime\<close> are \<^verbatim>\<open>type\<close>, \<^verbatim>\<open>value\<close> and \<^verbatim>\<open>time\<close> of \<^verbatim>\<open>custom\<close>, \<open>callStack\<close> is
  \<^verbatim>\<open>stack\<close> of a saved call, \<open>fieldsFound\<close> is \<^verbatim>\<open>fieldsData.fields\<close>, \<open>contextHead\<close> is
  \<^verbatim>\<open>error.context[0]\<close> when it is a string, \<open>errorText\<close> is \<^verbatim>\<open>String(error.error)\<close>,
  \<open>apis\<close> is \<^verbatim>\<open>collectorData.apis.savedCalls\<close>, and \<open>fieldsData\<close> is
  \<^verbatim>\<open>collectorData.fields\<close>. A visited target always has its \<^verbatim>\<open>time\<close>.
\<close>

record 'ts VisitedTarget = Location +
  time :: 'ts

record ('ts, 'sel) PasswordLeak =
  leakTime :: 'ts
  attribute :: string
  selector :: 'sel
  attrsFrameStack :: "string list option"
  frameStack :: "string list option"

datatype Event = FillEvent | SubmitEvent | ClickLinkEvent | OtherEvent

record FieldsError =
  level :: string
  contextHead :: "string option"
  errorText :: string

record ('ts, 'sel) FieldsData =
  passwordLeaks :: "('ts, 'sel) PasswordLeak list"
  visitedTargets :: "'ts VisitedTarget list"
  fieldsFound :: "unit list"
  events :: "Event list"
  links :: "unit list option"
  errors :: "FieldsError list"

record ('ts, 'sel) Custom =
  selectorChain :: "'sel option"
  fieldType :: string
  fieldValue :: string
  callTime :: 'ts

record ('ts, 'sel) SavedCall =
  description :: string
  custom :: "('ts, 'sel) Custom"
  callStack :: "string list option"
  stackInfo :: "ThirdPartyInfo option list option"

record ('ts, 'sel) CollectorData =
  fieldsData :: "('ts, 'sel) FieldsData option"
  requests :: "'ts RequestData list option"
  apis :: "('ts, 'sel) SavedCall list option"

record ('ts, 'sel) CrawlResult =
  initialUrl :: string
  finalUrl :: string
  testStarted :: 'ts
  testFinished :: 'ts
  data :: "('ts, 'sel) CollectorData"

record LeakedValue = FindEntry +
  leakType :: string


record Fill =
  email :: string
  password :: string

record FullFieldsCollectorOptions =
  fill :: Fill

text \<open>
  What \<^verbatim>\<open>getSummary\<close> calls from modules that are not among the sources, as parameters:
  \<open>formatDuration finished started\<close> is \<^verbatim>\<open>formatDuration(testFinished - testStarted)\<close>,
  \<open>elapsed timestamp started\<close> is \<^verbatim>\<open>((timestamp - testStarted) / 1e3).toFixed(1)\<close>,
  \<open>selectorStr\<close> renders a selector chain, and \<open>stackFrameFile frame\<close> gives the matches
  of \<^verbatim>\<open>stackFrameFileRegex\<close> in a frame, each with the text before it, and the text after
  the last match (no match, and the frame is that text).
\<close>

record ('ts, 'sel) externals =
  formatDuration :: "'ts \<Rightarrow> 'ts \<Rightarrow> string"
  elapsed :: "'ts \<Rightarrow> 'ts \<Rightarrow> string"
  selectorStr :: "'sel \<Rightarrow> string"
  stackFrameFile :: "string \<Rightarrow> (string \<times> string) list \<times> string"

subsection \<open>Header, password leaks, missing requests\<close>

text \<open>The local function \<^verbatim>\<open>time\<close>.\<close>

definition timeStr :: "('ts, 'sel) externals \<Rightarrow> 'ts \<Rightarrow> 'ts \<Rightarrow> string" where
  "timeStr ext started timestamp = emoji_watch @ elapsed ext timestamp started @ ''s''"

definition thirdPartyInfoStr :: "'x ThirdPartyInfo_scheme \<Rightarrow> string" where
  "thirdPartyInfoStr info =
     (if thirdParty info = Some True then ''third party '' else [])
     @ (if tracker info = Some True then emoji_spy @ '' tracker '' else [])"








subsection \<open>Leaked values\<close>

text \<open>
  An element of \<^verbatim>\<open>annotatedLeaks\<close>: the leak with the request and the visited target its
  indices point to (\<^verbatim>\<open>{...leak, request, visitedTarget}\<close>). Reading an array past its end
  gives \<^verbatim>\<open>undefined\<close>, which is \<open>None\<close>.
\<close>

record 'ts AnnotatedLeak =
  leak :: LeakedValue
  request :: "'ts RequestData option"
  visitedTarget :: "'ts VisitedTarget option"

definition index_array :: "'a list \<Rightarrow> nat \<Rightarrow> 'a option" where
  "index_array xs i = (if i < length xs then Some (xs ! i) else None)"

definition annotate :: "('ts, 'sel) CollectorData \<Rightarrow> LeakedValue \<Rightarrow> error + 'ts AnnotatedLeak" where
  "annotate collectorData l =
     (case (case requestIndex l of
              None \<Rightarrow> Inr None
            | Some i \<Rightarrow> (case requests collectorData of
                          None \<Rightarrow> Inl TypeError
                        | Some rs \<Rightarrow> Inr (index_array rs i))) of
        Inl e \<Rightarrow> Inl e
      | Inr rq \<Rightarrow>
          (case (case visitedTargetIndex l of
                   None \<Rightarrow> Inr None
                 | Some j \<Rightarrow> (case fieldsData collectorData of
                               None \<Rightarrow> Inl TypeError
                             | Some fd \<Rightarrow> Inr (index_array (visitedTargets fd) j))) of
             Inl e \<Rightarrow> Inl e
           | Inr vt \<Rightarrow> Inr \<lparr>leak = l, request = rq, visitedTarget = vt\<rparr>))"

text \<open>\<^verbatim>\<open>request ?? visitedTarget!\<close>, read as a \<^verbatim>\<open>ThirdPartyInfo\<close>.\<close>

definition source_info :: "'ts AnnotatedLeak \<Rightarrow> ThirdPartyInfo option" where
  "source_info al =
     (case request al of
        Some rq \<Rightarrow> Some (ThirdPartyInfo.truncate rq)
      | None \<Rightarrow> map_option ThirdPartyInfo.truncate (visitedTarget al))"

definition hasDomainInfo :: "'ts AnnotatedLeak list \<Rightarrow> error + bool" where
  "hasDomainInfo annotatedLeaks =
     (case annotatedLeaks of
        [] \<Rightarrow> Inr False
      | first # _ \<Rightarrow> (case source_info first of
                       None \<Rightarrow> Inl TypeError
                     | Some info \<Rightarrow> Inr (thirdParty info \<noteq> None)))"

text \<open>The callback of \<^verbatim>\<open>annotatedLeaks.filter\<close>: \<^verbatim>\<open>thirdParty! || tracker!\<close>.\<close>

definition important :: "'ts AnnotatedLeak \<Rightarrow> error + bool" where
  "important al =
     (case source_info al of
        None \<Rightarrow> Inl TypeError
      | Some info \<Rightarrow> Inr (thirdParty info = Some True \<or> tracker info = Some True))"

fun try_filter :: "('a \<Rightarrow> error + bool) \<Rightarrow> 'a list \<Rightarrow> error + 'a list" where
  "try_filter f [] = Inr []"
| "try_filter f (x # xs) =
     (case f x of
        Inl e \<Rightarrow> Inl e
      | Inr keep \<Rightarrow> (case try_filter f xs of
                       Inl e \<Rightarrow> Inl e
                     | Inr ys \<Rightarrow> Inr (if keep then x # ys else ys)))"

definition importantLeaks :: "'ts AnnotatedLeak list \<Rightarrow> error + 'ts AnnotatedLeak list" where
  "importantLeaks annotatedLeaks =
     (case hasDomainInfo annotatedLeaks of
        Inl e \<Rightarrow> Inl e
      | Inr has \<Rightarrow> if has then try_filter important annotatedLeaks else Inr annotatedLeaks)"

definition part_str :: "part \<Rightarrow> string" where
  "part_str p = (case p of Url \<Rightarrow> ''url'' | Header \<Rightarrow> ''header'' | Body \<Rightarrow> ''body'')"

text \<open>
  Modelled from the spec: \<^verbatim>\<open>nonEmpty\<close> of \<^verbatim>\<open>utils.ts\<close>, which is not among the sources
  (the call stack is shown when present): an array that is there and has an element.
\<close>

definition nonEmpty :: "'a list option \<Rightarrow> bool" where
  "nonEmpty xs = (case xs of None \<Rightarrow> False | Some ys \<Rightarrow> ys \<noteq> [])"

text \<open>The body of the loop over \<^verbatim>\<open>importantLeaks\<close>.\<close>

definition write_leak :: "('ts, 'sel) externals \<Rightarrow> 'ts \<Rightarrow> 'ts AnnotatedLeak \<Rightarrow> error + string" where
  "write_leak ext started al =
     (case (case visitedTarget al of
              Some vt \<Rightarrow> Inr (Some (time vt))
            | None \<Rightarrow> (case request al of
                          None \<Rightarrow> Inl TypeError
                        | Some rq \<Rightarrow> Inr (wallTime rq))) of
        Inl e \<Rightarrow> Inl e
      | Inr reqTime \<Rightarrow>
          (let line = (case reqTime of Some t \<Rightarrow> timeStr ext started t @ '' '' | None \<Rightarrow> [])
                 @ leakType (leak al) @ '' sent in '' @ part_str (part (leak al))
           in case request al of
                Some rq \<Rightarrow> Inr (
                  line @ '' of request to '' @ thirdPartyInfoStr rq @ dquote @ url rq @ dquote
                  @ (if nonEmpty (stack rq)
                     then writeln '' by:''
                       @ concat (map (\<lambda>frame. writeln (tab @ frame))
                           (case stack rq of Some frames \<Rightarrow> frames | None \<Rightarrow> []))
                     else [])
                  @ writeln [])
              | None \<Rightarrow>
                  (case visitedTarget al of
                     None \<Rightarrow> Inl TypeError
                   | Some vt \<Rightarrow> Inr (
                       line @ writeln ('' for navigation to '' @ thirdPartyInfoStr vt @ url vt)))))"

definition leaks_warning :: string where
  "leaks_warning = writeln (emoji_warning @ '' No leaked value data found'' @ newline)"

definition leaks_section :: "('ts, 'sel) externals \<Rightarrow> 'ts \<Rightarrow> ('ts, 'sel) CollectorData
    \<Rightarrow> LeakedValue list option \<Rightarrow> error + string" where
  "leaks_section ext started collectorData lvs_opt =
     (case lvs_opt of
        None \<Rightarrow> Inr leaks_warning
      | Some lvs \<Rightarrow>
          (case try_map (annotate collectorData) lvs of
             Inl e \<Rightarrow> Inl e
           | Inr annotatedLeaks \<Rightarrow>
               (case hasDomainInfo annotatedLeaks of
                  Inl e \<Rightarrow> Inl e
                | Inr has \<Rightarrow>
                    (case importantLeaks annotatedLeaks of
                       Inl e \<Rightarrow> Inl e
                     | Inr leaks \<Rightarrow>
                         if leaks \<noteq> [] then
                           (case write_each (write_leak ext started) leaks of
                              Inl e \<Rightarrow> Inl e
                            | Inr body \<Rightarrow> Inr (
                                writeln (emoji_info @ '' '' @ emoji_outbox
                                  @ '' Values were sent in web requests''
                                  @ (if has then '' to third parties'' else []) @ '':'')
                                @ body
                                @ writeln []))
                         else Inr (writeln (emoji_check @ '' No leaks ''
                           @ (if lvs \<noteq> [] then ''to third parties '' else [])
                           @ ''detected'' @ newline))))))"

subsection \<open>Field value reads\<close>

text \<open>
  The key function of \<^verbatim>\<open>groupBy\<close>. A selector chain that is there is truthy;
  \<^verbatim>\<open>stack!.join\<close> throws on a call without a stack.
\<close>

definition call_key :: "('ts, 'sel) externals \<Rightarrow> ('ts, 'sel) SavedCall \<Rightarrow> error + string" where
  "call_key ext call =
     (case callStack call of
        None \<Rightarrow> Inl TypeError
      | Some frames \<Rightarrow> Inr (
          (case selectorChain (custom call) of Some chain \<Rightarrow> selectorStr ext chain | None \<Rightarrow> [])
          @ nul @ fieldType (custom call) @ nul @ fieldValue (custom call) @ nul
          @ join newline frames))"

text \<open>
  \<^verbatim>\<open>groupBy\<close> of rambda followed by \<^verbatim>\<open>Object.entries\<close>: \<^verbatim>\<open>result[key].push(item)\<close>, after
  \<^verbatim>\<open>result[key] = []\<close> for a new key. The entries of the object are enumerated in the order
  in which the keys were inserted (a key of \<open>call_key\<close> holds a NUL character, so it is
  never an array index).
\<close>

fun push_item :: "string \<Rightarrow> 'a \<Rightarrow> (string \<times> 'a list) list \<Rightarrow> (string \<times> 'a list) list" where
  "push_item key item [] = [(key, [item])]"
| "push_item key item ((k, items) # result) =
     (if k = key then (k, items @ [item]) # result else (k, items) # push_item key item result)"

fun groupBy_loop :: "('a \<Rightarrow> error + string) \<Rightarrow> 'a list \<Rightarrow> (string \<times> 'a list) list
    \<Rightarrow> error + (string \<times> 'a list) list" where
  "groupBy_loop groupFn [] result = Inr result"
| "groupBy_loop groupFn (item # list) result =
     (case groupFn item of
        Inl e \<Rightarrow> Inl e
      | Inr key \<Rightarrow> groupBy_loop groupFn list (push_item key item result))"

definition groupBy :: "('a \<Rightarrow> error + string) \<Rightarrow> 'a list \<Rightarrow> error + (string \<times> 'a list) list" where
  "groupBy groupFn list = groupBy_loop groupFn list []"

text \<open>The pipe up to \<^verbatim>\<open>Object.entries\<close>, and the whole pipe.\<close>

definition groupedCalls :: "('ts, 'sel) externals \<Rightarrow> FullFieldsCollectorOptions
    \<Rightarrow> ('ts, 'sel) SavedCall list \<Rightarrow> error + (string \<times> ('ts, 'sel) SavedCall list) list" where
  "groupedCalls ext fieldsCollectorOptions savedCalls =
     (let searchValues = [email (fill fieldsCollectorOptions), password (fill fieldsCollectorOptions)]
      in groupBy (call_key ext)
           (filter (\<lambda>call. fieldValue (custom call) \<in> set searchValues)
             (filter (\<lambda>call. description call = ''HTMLInputElement.prototype.value'') savedCalls)))"

definition fieldValueCalls :: "('ts, 'sel) externals \<Rightarrow> FullFieldsCollectorOptions
    \<Rightarrow> ('ts, 'sel) SavedCall list \<Rightarrow> error + (('ts, 'sel) SavedCall \<times> 'ts list) list" where
  "fieldValueCalls ext fieldsCollectorOptions savedCalls =
     (case groupedCalls ext fieldsCollectorOptions savedCalls of
        Inl e \<Rightarrow> Inl e
      | Inr groups \<Rightarrow> Inr (map (\<lambda>(key, calls).
          (hd calls, map (\<lambda>call. callTime (custom call)) calls)) groups))"

subsection \<open>Frame stack\<close>

text \<open>
  \<^verbatim>\<open>frame.replace(stackFrameFileRegex, file => ...)\<close>: the callback runs once for each
  match, in order; it returns the repeat marker when the file is the previous one and the
  classified file otherwise, and stores the file in \<^verbatim>\<open>prevFile\<close>. The result is the new
  text with the new \<^verbatim>\<open>prevFile\<close>.
\<close>

definition empty_info :: ThirdPartyInfo where
  "empty_info = \<lparr>thirdParty = None, tracker = None\<rparr>"

fun replace_files :: "ThirdPartyInfo option \<Rightarrow> (string \<times> string) list \<Rightarrow> string option
    \<Rightarrow> string \<times> string option" where
  "replace_files frameInfo [] prevFile = ([], prevFile)"
| "replace_files frameInfo ((before, file) # ms) prevFile =
     (let ret = (if prevFile = Some file then arrow_down
                 else thirdPartyInfoStr (case frameInfo of Some info \<Rightarrow> info | None \<Rightarrow> empty_info) @ file);
          (out, p) = replace_files frameInfo ms (Some file)
      in (before @ ret @ out, p))"

definition display_frame :: "('ts, 'sel) externals \<Rightarrow> string \<times> ThirdPartyInfo option
    \<Rightarrow> string option \<Rightarrow> string \<times> string option" where
  "display_frame ext = (\<lambda>(frame, frameInfo) prevFile.
     (let (ms, after) = stackFrameFile ext frame;
          (out, p) = replace_files frameInfo ms prevFile
      in (out @ after, p)))"

text \<open>The \<^verbatim>\<open>for\<close> loop that pushes to \<^verbatim>\<open>displayFrames\<close>.\<close>

fun display_loop :: "('ts, 'sel) externals \<Rightarrow> (string \<times> ThirdPartyInfo option) list
    \<Rightarrow> string option \<Rightarrow> string list" where
  "display_loop ext [] prevFile = []"
| "display_loop ext (fi # fis) prevFile =
     (let (d, p) = display_frame ext fi prevFile in d # display_loop ext fis p)"

text \<open>\<^verbatim>\<open>displayFrames\<close> after \<^verbatim>\<open>displayFrames.reverse()\<close>; \<^verbatim>\<open>zip\<close> and \<^verbatim>\<open>reverse\<close> are rambda's.\<close>

definition displayFrames :: "('ts, 'sel) externals \<Rightarrow> string list \<Rightarrow> ThirdPartyInfo option list
    \<Rightarrow> string list" where
  "displayFrames ext frames infos = rev (display_loop ext (rev (zip frames infos)) None)"




subsection \<open>Statistics and the whole report\<close>






section \<open>The structural order of the findings, in the words of the specification\<close>

text \<open>
  All entries of request 0 (its URL, then each header in enumeration order, then its body if
  present), then those of request 1, and so on, then the visited targets in index order; a
  location with no finding is left out. \<open>finding\<close> is what a search that does not reject
  found. A body is present when \<^verbatim>\<open>postData\<close> is a non-empty string.
\<close>

definition finding :: "('e, 'enc) searcher \<Rightarrow> ('enc \<Rightarrow> string) \<Rightarrow> string \<Rightarrow> string list option" where
  "finding findValueIn str s =
     (case findValueIn s of Inr (Some encoders) \<Rightarrow> Some (map str encoders) | _ \<Rightarrow> None)"

definition entry_of :: "(string list \<Rightarrow> FindEntry) \<Rightarrow> string list option \<Rightarrow> FindEntry list" where
  "entry_of mk f = (case f of None \<Rightarrow> [] | Some encs \<Rightarrow> [mk encs])"

fun header_findings :: "('e, 'enc) searcher \<Rightarrow> ('enc \<Rightarrow> string) \<Rightarrow> nat
    \<Rightarrow> (string \<times> string) list \<Rightarrow> FindEntry list" where
  "header_findings findValueIn str i [] = []"
| "header_findings findValueIn str i ((name, v) # hs) =
     entry_of (header_entry i name) (finding findValueIn str v)
     @ header_findings findValueIn str i hs"

definition request_findings :: "('e, 'enc) searcher \<Rightarrow> ('enc \<Rightarrow> string) \<Rightarrow> nat
    \<Rightarrow> ('ts, 'x) RequestData_scheme \<Rightarrow> FindEntry list" where
  "request_findings findValueIn str i rq =
     entry_of (url_entry i) (finding findValueIn str (url rq))
     @ header_findings findValueIn str i (case requestHeaders rq of None \<Rightarrow> [] | Some hs \<Rightarrow> hs)
     @ (case postData rq of
          None \<Rightarrow> []
        | Some d \<Rightarrow> if d = [] then [] else entry_of (body_entry i) (finding findValueIn str d))"

fun requests_findings :: "('e, 'enc) searcher \<Rightarrow> ('enc \<Rightarrow> string) \<Rightarrow> nat
    \<Rightarrow> ('ts, 'x) RequestData_scheme list \<Rightarrow> FindEntry list" where
  "requests_findings findValueIn str i [] = []"
| "requests_findings findValueIn str i (rq # rqs) =
     request_findings findValueIn str i rq
     @ requests_findings findValueIn str (Suc i) rqs"

fun target_findings :: "('e, 'enc) searcher \<Rightarrow> ('enc \<Rightarrow> string) \<Rightarrow> string set \<Rightarrow> nat
    \<Rightarrow> string list \<Rightarrow> FindEntry list" where
  "target_findings findValueIn str requestUrls j [] = []"
| "target_findings findValueIn str requestUrls j (u # us) =
     (if u \<in> requestUrls then [] else entry_of (target_entry j) (finding findValueIn str u))
     @ target_findings findValueIn str requestUrls (Suc j) us"

definition structural_order :: "('e, 'enc) searcher \<Rightarrow> ('enc \<Rightarrow> string)
    \<Rightarrow> ('ts, 'x) RequestData_scheme list \<Rightarrow> string list \<Rightarrow> FindEntry list" where
  "structural_order findValueIn str rqs vts =
     requests_findings findValueIn str 0 rqs
     @ target_findings findValueIn str (url ` set rqs) 0 vts"

subsection \<open>Example inputs\<close>

definition example_searcher :: "(string, string) searcher" where
  "example_searcher s =
     (if s = ''%%'' then Inl ''malformed''
      else if s = ''https://t.example/?pw=s3cr3t'' \<or> s = ''pw=s3cr3t'' then Inr (Some [''uri''])
      else Inr None)"

definition request_to :: "string \<Rightarrow> (string \<times> string) list option \<Rightarrow> string option
    \<Rightarrow> (nat, unit) RequestData_scheme" where
  "request_to u hs d = \<lparr>thirdParty = None, tracker = None, url = u, requestHeaders = hs,
     postData = d, wallTime = None, stack = None\<rparr>"

definition failing_requests :: "(nat, unit) RequestData_scheme list" where
  "failing_requests =
     [request_to ''%%'' None None, request_to ''https://t.example/?pw=s3cr3t'' None None]"

definition leaking_requests :: "(nat, unit) RequestData_scheme list" where
  "leaking_requests =
     [request_to ''https://t.example/?pw=s3cr3t''
        (Some [(''referer'', ''pw=s3cr3t''), (''accept'', ''text/html'')]) (Some ''pw=s3cr3t''),
      request_to ''https://a.example/'' None (Some [])]"

definition leaking_targets :: "string list" where
  "leaking_targets = [''https://a.example/'', ''pw=s3cr3t'']"


section \<open>The piercing order, in the words of the specification\<close>

text \<open>\<open>first_of xs\<close> is the first element of a list, \<open>None\<close> when there is none.\<close>

definition first_of :: "'b list \<Rightarrow> 'b option" where
  "first_of xs = (case xs of [] \<Rightarrow> None | x # _ \<Rightarrow> Some x)"

text \<open>
  Depth first: below a node come first the matches in its shadow tree, then its light-tree
  children in document order, each child tested itself and followed at once by everything
  below it (its shadow tree first). \<open>below root\<close> is the set of nodes reachable from
  \<open>root\<close> through child nodes and attached shadow roots.
\<close>

fun pierce :: "('a \<Rightarrow> string \<Rightarrow> bool) \<Rightarrow> string \<Rightarrow> 'a node \<Rightarrow> 'a node list"
  and pierce_all :: "('a \<Rightarrow> string \<Rightarrow> bool) \<Rightarrow> string \<Rightarrow> 'a node list \<Rightarrow> 'a node list" where
  "pierce m sel (Element a s cs) =
     (case s of Some kids \<Rightarrow> pierce_all m sel kids | None \<Rightarrow> [])
     @ pierce_all m sel cs"
| "pierce m sel (Other cs) = pierce_all m sel cs"
| "pierce_all m sel [] = []"
| "pierce_all m sel (c # cs) =
     (if matches m c sel then [c] else []) @ pierce m sel c @ pierce_all m sel cs"

inductive_set below :: "'a node \<Rightarrow> 'a node set" for root :: "'a node" where
  child: "c \<in> set (childNodes root) \<Longrightarrow> c \<in> below root"
| shadow: "shadowRoot root = Some s \<Longrightarrow> s \<in> below root"
| child_step: "n \<in> below root \<Longrightarrow> c \<in> set (childNodes n) \<Longrightarrow> c \<in> below root"
| shadow_step: "n \<in> below root \<Longrightarrow> shadowRoot n = Some s \<Longrightarrow> s \<in> below root"


text \<open>
  What one step of the loop over the tree walker yields: the child when it matches, then
  what its shadow root yields. \<open>yields\<close> takes the latter from the generator,
  \<open>pierce_yields\<close> from the piercing order.
\<close>

definition yields :: "('a \<Rightarrow> string \<Rightarrow> bool) \<Rightarrow> string \<Rightarrow> 'a node \<Rightarrow> 'a node list" where
  "yields m sel child =
     (if matches m child sel then [child] else [])
     @ (case shadowRoot child of
          Some nodeShadow \<Rightarrow> examineChildren m sel nodeShadow
        | None \<Rightarrow> [])"

definition pierce_yields :: "('a \<Rightarrow> string \<Rightarrow> bool) \<Rightarrow> string \<Rightarrow> 'a node \<Rightarrow> 'a node list" where
  "pierce_yields m sel child =
     (if matches m child sel then [child] else [])
     @ (case shadowRoot child of Some nodeShadow \<Rightarrow> pierce m sel nodeShadow | None \<Rightarrow> [])"

subsection \<open>Example trees\<close>

definition tag_matches :: "string \<times> nat \<Rightarrow> string \<Rightarrow> bool" where
  "tag_matches a sel = (fst a = sel)"

definition input_in_shadow :: "(string \<times> nat) node" where
  "input_in_shadow = Element (''input'', 2) None []"

definition shadow_host :: "(string \<times> nat) node" where
  "shadow_host = Element (''div'', 1)
     (Some [input_in_shadow, Element (''slot'', 3) (Some [Element (''input'', 4) None []]) []])
     [Other [], Element (''input'', 5) None [Element (''b'', 6) None []]]"

definition shadow_page :: "(string \<times> nat) node" where
  "shadow_page = Other [Element (''p'', 0) None [shadow_host], Element (''input'', 7) None []]"


section \<open>The class names the unwrapper asks about\<close>

text \<open>
  \<open>asked_classes handle\<close> lists the class names of the objects with an absent or
  \<^verbatim>\<open>proxy\<close> subtype that are reached from \<open>handle\<close> through properties of such objects
  and of arrays: the class names \<^verbatim>\<open>unwrapHandle\<close> may pass to its predicate.
\<close>

function asked_classes :: "('e, 'v) JSHandle \<Rightarrow> string option list" where
  "asked_classes handle =
     (if type (remoteObject handle) = ''object'' then
        (if subtype (remoteObject handle) \<in> set [None, Some ''proxy''] then
           className (remoteObject handle)
           # (case getProperties handle of
                Inl e \<Rightarrow> []
              | Inr props \<Rightarrow> concat (map (\<lambda>(k, v). asked_classes v) props))
         else if subtype (remoteObject handle) = Some ''array'' then
           (case getProperties handle of
              Inl e \<Rightarrow> []
            | Inr props \<Rightarrow> concat (map (\<lambda>(k, v). asked_classes v) props))
         else [])
      else [])"
  by pat_completeness auto
termination
proof (relation "measure size", goal_cases)
  case 1
  show ?case by simp
next
  case (2 handle props kv k v)
  then show ?case using size_getProperties [of handle props k v] by simp
next
  case (3 handle props kv k v)
  then show ?case using size_getProperties [of handle props k v] by simp
qed

declare asked_classes.simps [simp del]

subsection \<open>Example handles\<close>

definition number_handle :: "string \<Rightarrow> (string, string) JSHandle" where
  "number_handle n = JSHandle \<lparr>type = ''number'', subtype = None, className = None\<rparr> (Inr []) (Inr n)"

definition foo_instance :: "(string, string) JSHandle" where
  "foo_instance = JSHandle \<lparr>type = ''object'', subtype = None, className = Some ''Foo''\<rparr>
     (Inr [(''x'', number_handle ''1'')]) (Inr ''{x:1}'')"

definition plain_object :: "(string, string) JSHandle" where
  "plain_object = JSHandle \<lparr>type = ''object'', subtype = None, className = Some ''Object''\<rparr>
     (Inr [(''x'', number_handle ''1''),
           (''y'', JSHandle \<lparr>type = ''object'', subtype = Some ''array'', className = Some ''Array''\<rparr>
              (Inr [(''0'', JSHandle \<lparr>type = ''object'', subtype = Some ''proxy'', className = Some ''Proxy''\<rparr>
                       (Inr [(''z'', number_handle ''2'')]) (Inr ''{z:2}'')),
                    (''1'', JSHandle \<lparr>type = ''function'', subtype = None, className = Some ''Function''\<rparr>
                       (Inr []) (Inr ''{}'')),
                    (''2'', JSHandle \<lparr>type = ''object'', subtype = Some ''null'', className = None\<rparr>
                       (Inr []) (Inr ''null''))])
              (Inr ''[{z:2},{},null]''))])
     (Inr ''{x:1,y:[{z:2},{},null]}'')"


section \<open>Example inputs of the report\<close>

text \<open>
  Example externals: timestamps are milliseconds, a selector chain is a list of selectors
  joined by \<^verbatim>\<open>>>>\<close>, and the file of a frame \<^verbatim>\<open>file:line\<close> is the text before the first
  colon.
\<close>

definition example_externals :: "(nat, string list) externals" where
  "example_externals = \<lparr>
     formatDuration = (\<lambda>finished started. digits (finished - started) @ ''ms''),
     elapsed = (\<lambda>timestamp started. digits (timestamp - started)),
     selectorStr = join ''>>>'',
     stackFrameFile = (\<lambda>frame.
       ([([], takeWhile (\<lambda>c. c \<noteq> CHR '':'') frame)], dropWhile (\<lambda>c. c \<noteq> CHR '':'') frame))\<rparr>"

definition third_party_script :: "ThirdPartyInfo option" where
  "third_party_script = Some \<lparr>thirdParty = Some True, tracker = None\<rparr>"

definition example_options :: FullFieldsCollectorOptions where
  "example_options = \<lparr>fill = \<lparr>email = ''me@example.com'', password = ''hunter2''\<rparr>\<rparr>"

definition password_read :: "nat \<Rightarrow> string list option \<Rightarrow> (nat, string list) SavedCall" where
  "password_read t chain = \<lparr>
     description = ''HTMLInputElement.prototype.value'',
     custom = \<lparr>selectorChain = chain, fieldType = ''password'', fieldValue = ''hunter2'',
       callTime = t\<rparr>,
     callStack = Some [''a.js:1''],
     stackInfo = Some [None]\<rparr>"


section \<open>Classification of a leak\<close>

text \<open>
  A resolved location carries a classification when its \<^verbatim>\<open>thirdParty\<close> is defined; it is
  a third party or a tracker when \<^verbatim>\<open>thirdParty === true\<close> or \<^verbatim>\<open>tracker === true\<close>.
\<close>

definition classified :: "'ts AnnotatedLeak \<Rightarrow> bool" where
  "classified al = (case source_info al of Some info \<Rightarrow> thirdParty info \<noteq> None | None \<Rightarrow> False)"

definition third_party_or_tracker :: "'ts AnnotatedLeak \<Rightarrow> bool" where
  "third_party_or_tracker al =
     (case source_info al of
        Some info \<Rightarrow> thirdParty info = Some True \<or> tracker info = Some True
      | None \<Rightarrow> False)"

subsection \<open>Example leaks\<close>

definition classified_request :: "string \<Rightarrow> bool option \<Rightarrow> bool option \<Rightarrow> nat RequestData" where
  "classified_request u tp tr = \<lparr>thirdParty = tp, tracker = tr, url = u, requestHeaders = None,
     postData = None, wallTime = Some 1500, stack = None\<rparr>"

definition url_leak :: "nat option \<Rightarrow> nat option \<Rightarrow> LeakedValue" where
  "url_leak i j = \<lparr>requestIndex = i, visitedTargetIndex = j, part = Url, header = None,
     encodings = [''uri''], leakType = ''password''\<rparr>"

definition mixed_data :: "(nat, string list) CollectorData" where
  "mixed_data = \<lparr>fieldsData = None,
     requests = Some [classified_request ''https://a.example/?pw=s3cr3t'' None None,
                      classified_request ''https://b.example/?pw=s3cr3t'' (Some False) (Some False),
                      classified_request ''https://t.example/?pw=s3cr3t'' (Some True) (Some False)],
     apis = None\<rparr>"

definition unclassified_leak :: "nat AnnotatedLeak" where
  "unclassified_leak = \<lparr>leak = url_leak (Some 0) None,
     request = Some (classified_request ''https://a.example/?pw=s3cr3t'' None None),
     visitedTarget = None\<rparr>"

definition first_party_leak :: "nat AnnotatedLeak" where
  "first_party_leak = \<lparr>leak = url_leak (Some 1) None,
     request = Some (classified_request ''https://b.example/?pw=s3cr3t'' (Some False) (Some False)),
     visitedTarget = None\<rparr>"

definition third_party_leak :: "nat AnnotatedLeak" where
  "third_party_leak = \<lparr>leak = url_leak (Some 2) None,
     request = Some (classified_request ''https://t.example/?pw=s3cr3t'' (Some True) (Some False)),
     visitedTarget = None\<rparr>"

text \<open>The text that the rendering loop writes for a list of leaks that all resolve.\<close>

definition rendered_leaks :: "('ts, 'sel) externals \<Rightarrow> 'ts \<Rightarrow> 'ts AnnotatedLeak list \<Rightarrow> string" where
  "rendered_leaks ext started leaks =
     concat (map (\<lambda>al. case write_leak ext started al of Inr s \<Rightarrow> s | Inl e \<Rightarrow> []) leaks)"


section \<open>Groups and their keys\<close>

text \<open>
  The invariant of \<^verbatim>\<open>groupBy\<close>: the keys of the result are distinct and every group holds
  at least one item and only items of its key. \<open>members\<close> is the set of the items of all
  groups.
\<close>

definition grouped :: "('a \<Rightarrow> error + string) \<Rightarrow> (string \<times> 'a list) list \<Rightarrow> bool" where
  "grouped groupFn result =
     (distinct (map fst result) \<and>
      (\<forall>(k, items) \<in> set result. items \<noteq> [] \<and> (\<forall>x \<in> set items. groupFn x = Inr k)))"

definition members :: "(string \<times> 'a list) list \<Rightarrow> 'a set" where
  "members result = (\<Union>(k, items) \<in> set result. set items)"


section \<open>Crawl outputs that keep the contract of their types\<close>

text \<open>
  \<^verbatim>\<open>getSummary\<close> tests the presence of every section of its input (fields collector data,
  request collector data, leaked values, API calls) and writes a warning for a missing one.
  Inside a section that is there it relies, with a non-null assertion, on what the types
  and their documentation promise:

  \<^item> a leak entry resolves: an index that is set is an index into a collection that is
    there (\<^verbatim>\<open>requestIndex\<close> is documented as ``Index in requests'', \<^verbatim>\<open>visitedTargetIndex\<close>
    as ``Index in visitedTargets''), and the entry finds a request or a visited target;
  \<^item> a password leak has a frame stack, its own or that of \<^verbatim>\<open>attrs\<close>;
  \<^item> a tracked read, which is a saved call of \<^verbatim>\<open>HTMLInputElement.prototype.value\<close> whose value
    is the filled email or password, has its stack, and the first read of every group has
    its stack classification. No other saved call is looked at beyond its description and
    value, and of a group only the first read is asked for \<^verbatim>\<open>stackInfo\<close>.

  \<open>well_formed\<close> asks for this and for nothing else; in particular it asks nothing of a
  section that is absent.
\<close>

definition resolves :: "('ts, 'sel) CollectorData \<Rightarrow> LeakedValue \<Rightarrow> bool" where
  "resolves collectorData l =
     ((case requestIndex l of None \<Rightarrow> True | Some i \<Rightarrow> requests collectorData \<noteq> None) \<and>
      (case visitedTargetIndex l of None \<Rightarrow> True | Some j \<Rightarrow> fieldsData collectorData \<noteq> None) \<and>
      ((case (requestIndex l, requests collectorData) of
          (Some i, Some rs) \<Rightarrow> i < length rs
        | _ \<Rightarrow> False) \<or>
       (case (visitedTargetIndex l, fieldsData collectorData) of
          (Some j, Some fd) \<Rightarrow> j < length (visitedTargets fd)
        | _ \<Rightarrow> False)))"





subsection \<open>Example crawl outputs\<close>







section \<open>Properties of \<^verbatim>\<open>Promise.all\<close> and \<^verbatim>\<open>findValue\<close>\<close>

lemma those_map_Some: "those (map Some xs) = Some xs"
  by (induction xs) auto

lemma settle_rejects:
  "i \<in> set order \<Longrightarrow> i < length ps \<Longrightarrow> isl (ps ! i) \<Longrightarrow> \<exists>j e. j \<in> set order \<and> j < length ps \<and> ps ! j = Inl e \<and> settle ps order slots = Inl e"
proof (induction ps order slots rule: settle.induct)
  case (1 ps slots)
  then show ?case by simp
next
  case (2 ps k order slots)
  show ?case
  proof (cases "k < length ps")
    case False
    with 2 show ?thesis by auto
  next
    case True
    show ?thesis
    proof (cases "ps ! k")
      case (Inl e)
      with True show ?thesis by auto
    next
      case (Inr v)
      with True 2 show ?thesis by (auto simp: isl_def)
    qed
  qed
qed

lemma settle_fulfilled:
  assumes "\<forall>p \<in> set ps. \<not> isl p"
  shows "\<exists>slots'. settle ps order slots = Inr slots' \<and> length slots' = length slots \<and>
     (\<forall>i < length slots. slots' ! i =
        (if i \<in> set order \<and> i < length ps then Some (projr (ps ! i)) else slots ! i))"
proof (induction order arbitrary: slots)
  case Nil
  show ?case by simp
next
  case (Cons k order)
  show ?case
  proof (cases "k < length ps")
    case False
    with Cons [of slots] show ?thesis by auto
  next
    case True
    with assms have "\<not> isl (ps ! k)" by simp
    then obtain v where v: "ps ! k = Inr v"
      by (cases "ps ! k") auto
    from Cons [of "slots[k := Some v]"] obtain slots' where
      s: "settle ps order (slots[k := Some v]) = Inr slots'" "length slots' = length slots"
        "\<forall>i < length slots. slots' ! i =
           (if i \<in> set order \<and> i < length ps then Some (projr (ps ! i)) else slots[k := Some v] ! i)"
      by auto
    have "settle ps (k # order) slots = Inr slots'"
      using True v s(1) by simp
    moreover have "\<forall>i < length slots. slots' ! i =
        (if i \<in> set (k # order) \<and> i < length ps then Some (projr (ps ! i)) else slots ! i)"
      using s(3) v True by (simp add: nth_list_update)
    ultimately show ?thesis using s(2) by blast
  qed
qed

lemma promise_all_fulfilled:
  assumes "\<forall>p \<in> set ps. \<not> isl p" and "set [0..<length ps] \<subseteq> set order"
  shows "promise_all ps order = Some (Inr (map projr ps))"
proof -
  obtain slots' where s: "settle ps order (replicate (length ps) None) = Inr slots'"
    "length slots' = length ps"
    "\<forall>i < length ps. slots' ! i =
        (if i \<in> set order \<and> i < length ps then Some (projr (ps ! i)) else replicate (length ps) None ! i)"
    using settle_fulfilled [OF assms(1), of order "replicate (length ps) None"] by auto
  have "\<forall>i < length ps. slots' ! i = Some (projr (ps ! i))"
    using s(3) assms(2) by auto
  then have "slots' = map Some (map projr ps)"
    using s(2) by (simp add: list_eq_iff_nth_eq)
  then show ?thesis
    using s(1) those_map_Some [of "map projr ps"] by (simp add: promise_all_def)
qed

lemma promise_all_rejects:
  assumes "i \<in> set order" "i < length ps" "isl (ps ! i)"
  shows "\<exists>j e. j < length ps \<and> ps ! j = Inl e \<and> promise_all ps order = Some (Inl e)"
  using settle_rejects [OF assms, of "replicate (length ps) None"]
  by (auto simp: promise_all_def)

lemma notFalsy_append: "notFalsy (xs @ ys) = notFalsy xs @ notFalsy ys"
  by (simp add: notFalsy_def map_filter_def)

lemma notFalsy_Cons: "notFalsy (x # xs) = (case x of None \<Rightarrow> [] | Some v \<Rightarrow> [v]) @ notFalsy xs"
  by (cases x) (simp_all add: notFalsy_def map_filter_def)

lemma notFalsy_Nil: "notFalsy [] = []"
  by (simp add: notFalsy_def map_filter_def)

lemma projr_found:
  "\<not> isl p \<Longrightarrow> (case projr (found str mk p) of None \<Rightarrow> [] | Some v \<Rightarrow> [v])
     = entry_of mk (case p of Inr (Some encoders) \<Rightarrow> Some (map str encoders) | _ \<Rightarrow> None)"
  by (cases p) (auto simp: found_def promise_then_def entry_of_def split: option.splits)

lemma isl_found: "isl (found str mk p) = isl p"
  by (cases p) (auto simp: found_def promise_then_def)

lemma header_findings_eq:
  "\<forall>(name, v) \<in> set hs. \<not> isl (findValueIn v) \<Longrightarrow>
   notFalsy (map projr (map (\<lambda>(name, v). found str (header_entry i name) (findValueIn v)) hs))
     = header_findings findValueIn str i hs"
  by (induction hs) (auto simp: notFalsy_Nil notFalsy_Cons projr_found finding_def)

lemma request_findings_eq:
  assumes "\<forall>p \<in> set (request_searches findValueIn str (i, rq)). \<not> isl p"
  shows "notFalsy (map projr (request_searches findValueIn str (i, rq)))
     = request_findings findValueIn str i rq"
proof -
  let ?hs = "case requestHeaders rq of None \<Rightarrow> [] | Some hs \<Rightarrow> hs"
  have u: "\<not> isl (findValueIn (url rq))"
    using assms by (simp add: request_searches_def isl_found)
  have h: "\<forall>(name, v) \<in> set ?hs. \<not> isl (findValueIn v)"
    using assms by (auto simp: request_searches_def isl_found)
  have b: "\<And>d. postData rq = Some d \<Longrightarrow> d \<noteq> [] \<Longrightarrow> \<not> isl (findValueIn d)"
    using assms by (auto simp: request_searches_def isl_found)
  show ?thesis
    using u b header_findings_eq [OF h, of str i]
    by (auto simp: request_searches_def request_findings_def notFalsy_append notFalsy_Cons
        notFalsy_Nil projr_found finding_def entry_of_def split: option.splits)
qed

lemma requests_findings_eq:
  "\<forall>p \<in> set (concat (map (request_searches findValueIn str) (enumerate i rqs))). \<not> isl p \<Longrightarrow>
   notFalsy (map projr (concat (map (request_searches findValueIn str) (enumerate i rqs))))
     = requests_findings findValueIn str i rqs"
proof (induction rqs arbitrary: i)
  case Nil
  show ?case by (simp add: notFalsy_Nil)
next
  case (Cons r rs)
  have 1: "\<forall>p \<in> set (request_searches findValueIn str (i, r)). \<not> isl p"
    using Cons.prems by simp
  have 2: "\<forall>p \<in> set (concat (map (request_searches findValueIn str) (enumerate (Suc i) rs))). \<not> isl p"
    using Cons.prems by simp
  show ?case
    using request_findings_eq [OF 1] Cons.IH [OF 2]
    by (simp add: notFalsy_append)
qed

lemma target_findings_eq:
  "\<forall>p \<in> set (map (\<lambda>(j, u). found str (target_entry j) (findValueIn u))
       (filter (\<lambda>(j, u). u \<notin> U) (enumerate j us))). \<not> isl p \<Longrightarrow>
   notFalsy (map projr (map (\<lambda>(j, u). found str (target_entry j) (findValueIn u))
       (filter (\<lambda>(j, u). u \<notin> U) (enumerate j us))))
     = target_findings findValueIn str U j us"
proof (induction us arbitrary: j)
  case Nil
  show ?case by (simp add: notFalsy_Nil)
next
  case (Cons u us)
  show ?case
  proof (cases "u \<in> U")
    case True
    with Cons show ?thesis by simp
  next
    case False
    with Cons.prems have "\<not> isl (findValueIn u)" by (simp add: isl_found)
    with False Cons show ?thesis
      by (simp add: notFalsy_Cons projr_found finding_def)
  qed
qed

lemma findValue_fulfilled:
  assumes "\<forall>p \<in> set (searches findValueIn str rqs vts). \<not> isl p"
    and "set [0..<length (searches findValueIn str rqs vts)] \<subseteq> set order"
  shows "findValue findValueIn str order rqs vts
     = Some (Inr (structural_order findValueIn str rqs vts))"
proof -
  have r: "\<forall>p \<in> set (concat (map (request_searches findValueIn str) (enumerate 0 rqs))). \<not> isl p"
    using assms(1) by (simp add: searches_def)
  have t: "\<forall>p \<in> set (map (\<lambda>(j, u). found str (target_entry j) (findValueIn u))
       (filter (\<lambda>(j, u). u \<notin> url ` set rqs) (enumerate 0 vts))). \<not> isl p"
    using assms(1) by (simp add: searches_def target_searches_def)
  have "notFalsy (map projr (searches findValueIn str rqs vts))
      = structural_order findValueIn str rqs vts"
    using requests_findings_eq [OF r] target_findings_eq [OF t]
    by (simp add: searches_def target_searches_def structural_order_def notFalsy_append)
  then show ?thesis
    using promise_all_fulfilled [OF assms]
    by (simp add: findValue_def promise_then_def)
qed


lemma settle_sound:
  "settle ps order slots = Inr slots' \<Longrightarrow>
   set slots' \<subseteq> set slots \<union> {Some v | v. Inr v \<in> set ps}"
proof (induction ps order slots rule: settle.induct)
  case (1 ps slots)
  then show ?case by auto
next
  case (2 ps k order slots)
  show ?case
  proof (cases "k < length ps")
    case False
    with 2 show ?thesis by auto
  next
    case True
    from 2(3) True obtain v where v: "ps ! k = Inr v"
      and s: "settle ps order (slots[k := Some v]) = Inr slots'"
      by (auto split: sum.splits)
    have "set slots' \<subseteq> set (slots[k := Some v]) \<union> {Some v | v. Inr v \<in> set ps}"
      using 2(1) [OF True v s] .
    moreover have "set (slots[k := Some v]) \<subseteq> insert (Some v) (set slots)"
      by (rule set_update_subset_insert)
    moreover have "Inr v \<in> set ps"
      using True v by (metis nth_mem)
    ultimately show ?thesis by auto
  qed
qed

lemma those_eq_Some: "those xs = Some vs \<Longrightarrow> xs = map Some vs"
  by (induction xs arbitrary: vs) (auto split: option.splits)

lemma promise_all_sound:
  assumes "promise_all ps order = Some (Inr vs)"
  shows "\<forall>v \<in> set vs. Inr v \<in> set ps"
proof -
  from assms obtain slots' where
    s: "settle ps order (replicate (length ps) None) = Inr slots'" and t: "those slots' = Some vs"
    by (auto simp: promise_all_def split: sum.splits)
  have "set slots' \<subseteq> set (replicate (length ps) None) \<union> {Some v | v. Inr v \<in> set ps}"
    using settle_sound [OF s] .
  moreover have "slots' = map Some vs"
    using those_eq_Some [OF t] .
  ultimately show ?thesis by auto
qed

lemma findValue_sound:
  assumes "findValue findValueIn str order rqs vts = Some (Inr entries)"
  shows "\<forall>e \<in> set entries. Inr (Some e) \<in> set (searches findValueIn str rqs vts)"
proof -
  from assms obtain r where
    r: "promise_all (searches findValueIn str rqs vts) order = Some r"
    and "promise_then notFalsy r = Inr entries"
    by (auto simp: findValue_def)
  then obtain vs where
    p: "promise_all (searches findValueIn str rqs vts) order = Some (Inr vs)"
    and e: "entries = notFalsy vs"
    by (cases r) (auto simp: promise_then_def)
  have "\<forall>e \<in> set entries. Some e \<in> set vs"
    using e by (auto simp: notFalsy_def map_filter_def)
  then show ?thesis
    using promise_all_sound [OF p] by blast
qed

lemma found_SomeD: "Inr (Some e) = found str mk p \<Longrightarrow> \<exists>encs. e = mk encs"
  by (cases p) (auto simp: found_def promise_then_def map_option_case split: option.splits)

lemma request_searches_index:
  "Inr (Some e) \<in> set (request_searches findValueIn str (i, rq)) \<Longrightarrow>
   requestIndex e = Some i \<and> visitedTargetIndex e = None"
  by (auto simp: request_searches_def url_entry_def header_entry_def body_entry_def
      dest!: found_SomeD split: option.splits if_splits)

lemma requests_searches_index:
  "Inr (Some e) \<in> set (concat (map (request_searches findValueIn str) (enumerate n rqs))) \<Longrightarrow>
   (\<exists>i. requestIndex e = Some i) \<and> visitedTargetIndex e = None"
  using request_searches_index by fastforce

lemma target_searches_index:
  "Inr (Some e) \<in> set (target_searches findValueIn str rqs vts) \<Longrightarrow>
   requestIndex e = None \<and>
   (\<exists>j < length vts. visitedTargetIndex e = Some j \<and> vts ! j \<notin> url ` set rqs)"
  by (auto simp: target_searches_def target_entry_def in_set_enumerate_eq dest!: found_SomeD)


lemmas findValue_defs = findValue_def promise_all_def searches_def request_searches_def
  target_searches_def found_def promise_then_def notFalsy_def map_filter_def
  url_entry_def header_entry_def body_entry_def target_entry_def
  example_searcher_def request_to_def failing_requests_def leaking_requests_def
  leaking_targets_def

text \<open>
  C1 (as amended). \<^verbatim>\<open>findValue\<close> awaits one \<^verbatim>\<open>Promise.all\<close> over all searches and has
  no handler for a rejection: when any per-location search rejects (and that rejection is
  observed, i.e. its index is in the settle order), the promise of \<^verbatim>\<open>findValue\<close> rejects
  with the reason of a rejecting search, and no list of findings is returned.
\<close>

theorem findValue_rejection_aborts:
  assumes "i < length (searches findValueIn str rqs vts)"
    and "isl (searches findValueIn str rqs vts ! i)"
    and "i \<in> set order"
  shows "\<exists>e. findValue findValueIn str order rqs vts = Some (Inl e) \<and>
     Inl e \<in> set (searches findValueIn str rqs vts)"
proof -
  obtain j e where j: "j < length (searches findValueIn str rqs vts)"
    "searches findValueIn str rqs vts ! j = Inl e"
    "promise_all (searches findValueIn str rqs vts) order = Some (Inl e)"
    using promise_all_rejects [OF assms(3) assms(1) assms(2)] by blast
  have "Inl e \<in> set (searches findValueIn str rqs vts)"
    using j(1) j(2) by (metis nth_mem)
  then show ?thesis
    using j(3) by (simp add: findValue_def promise_then_def)
qed

theorem findValue_rejection_aborts_witness:
  "\<exists>e. findValue example_searcher id [3, 2, 1, 0] failing_requests [] = Some (Inl e) \<and>
     Inl e \<in> set (searches example_searcher id failing_requests [])"
proof -
  have 1: "0 < length (searches example_searcher id failing_requests [])"
    by (simp add: findValue_defs)
  have 2: "isl (searches example_searcher id failing_requests [] ! 0)"
    by (simp add: findValue_defs)
  have 3: "0 \<in> set [3, 2, 1, 0 :: nat]"
    by simp
  show ?thesis
    using findValue_rejection_aborts [OF 1 2 3] .
qed

text \<open>
  The claim as stated asks for the findings of the other locations. With one request whose
  URL search rejects and one whose URL holds the secret, the result is the rejection, in
  whichever order the searches settle.
\<close>

theorem findValue_rejection_counterexample:
  "findValue example_searcher id [0, 1, 2, 3] failing_requests [] = Some (Inl ''malformed'') \<and>
   findValue example_searcher id [3, 2, 1, 0] failing_requests [] = Some (Inl ''malformed'')"
  by (simp add: findValue_defs)

text \<open>
  C3. Every entry of a list that \<^verbatim>\<open>findValue\<close> returns has exactly one of
  \<open>requestIndex\<close> and \<open>visitedTargetIndex\<close> set, and an entry keyed by a visited-target
  index points at a visited target whose URL is the URL of no request: for a visited target
  whose URL equals a request URL no such entry is produced.
\<close>

theorem findValue_index_exclusive:
  assumes "findValue findValueIn str order rqs vts = Some (Inr entries)"
  shows "(\<forall>e \<in> set entries. (requestIndex e = None) \<noteq> (visitedTargetIndex e = None)) \<and>
    (\<forall>e \<in> set entries. \<forall>j. visitedTargetIndex e = Some j \<longrightarrow>
       j < length vts \<and> vts ! j \<notin> url ` set rqs)"
proof -
  have m: "\<forall>e \<in> set entries. Inr (Some e) \<in> set (searches findValueIn str rqs vts)"
    using findValue_sound [OF assms] .
  have k: "\<And>e. e \<in> set entries \<Longrightarrow>
      ((requestIndex e = None) \<noteq> (visitedTargetIndex e = None)) \<and>
      (\<forall>j. visitedTargetIndex e = Some j \<longrightarrow>
         j < length vts \<and> vts ! j \<notin> url ` set rqs)"
  proof -
    fix e assume "e \<in> set entries"
    with m consider
      (req) "Inr (Some e) \<in> set (concat (map (request_searches findValueIn str) (enumerate 0 rqs)))"
      | (tgt) "Inr (Some e) \<in> set (target_searches findValueIn str rqs vts)"
      by (auto simp: searches_def)
    then show "((requestIndex e = None) \<noteq> (visitedTargetIndex e = None)) \<and>
      (\<forall>j. visitedTargetIndex e = Some j \<longrightarrow>
         j < length vts \<and> vts ! j \<notin> url ` set rqs)"
    proof cases
      case req
      from requests_searches_index [OF req] show ?thesis by auto
    next
      case tgt
      from target_searches_index [OF tgt] show ?thesis by auto
    qed
  qed
  show ?thesis
  proof (intro conjI ballI)
    fix e assume "e \<in> set entries"
    from k [OF this] show "(requestIndex e = None) \<noteq> (visitedTargetIndex e = None)"
      by simp
  next
    fix e assume "e \<in> set entries"
    from k [OF this] show "\<forall>j. visitedTargetIndex e = Some j \<longrightarrow>
         j < length vts \<and> vts ! j \<notin> url ` set rqs"
      by simp
  qed
qed

theorem findValue_index_exclusive_witness:
  "findValue example_searcher id [6, 0, 5, 1, 4, 2, 3] leaking_requests leaking_targets
     = Some (Inr [url_entry 0 [''uri''], header_entry 0 ''referer'' [''uri''],
          body_entry 0 [''uri''], target_entry 1 [''uri'']]) \<and>
   leaking_targets ! 0 \<in> url ` set leaking_requests \<and>
   list_all (\<lambda>e. (requestIndex e = None) \<noteq> (visitedTargetIndex e = None) \<and>
       visitedTargetIndex e \<noteq> Some 0)
     [url_entry 0 [''uri''], header_entry 0 ''referer'' [''uri''],
      body_entry 0 [''uri''], target_entry 1 [''uri'']]"
proof -
  have f: "findValue example_searcher id [6, 0, 5, 1, 4, 2, 3] leaking_requests leaking_targets
     = Some (Inr [url_entry 0 [''uri''], header_entry 0 ''referer'' [''uri''],
          body_entry 0 [''uri''], target_entry 1 [''uri'']])"
    by (simp add: findValue_defs)
  have d: "leaking_targets ! 0 \<in> url ` set leaking_requests"
    by (simp add: findValue_defs)
  show ?thesis
    using findValue_index_exclusive [OF f] f d by (auto simp: list_all_iff)
qed

text \<open>
  C5. When no search rejects and every search settles, \<^verbatim>\<open>findValue\<close> returns the findings
  in the structural order (\<open>structural_order\<close>: request by request, URL, headers in
  enumeration order, body; then the visited targets by index), whatever the order in which
  the searches settle.
\<close>

theorem findValue_structural_order:
  assumes "\<forall>p \<in> set (searches findValueIn str rqs vts). \<not> isl p"
    and "set [0..<length (searches findValueIn str rqs vts)] \<subseteq> set order"
  shows "findValue findValueIn str order rqs vts
     = Some (Inr (structural_order findValueIn str rqs vts))"
  using assms by (rule findValue_fulfilled)

theorem findValue_structural_order_witness:
  "findValue example_searcher id [6, 0, 5, 1, 4, 2, 3] leaking_requests leaking_targets
     = Some (Inr (structural_order example_searcher id leaking_requests leaking_targets)) \<and>
   findValue example_searcher id [0, 1, 2, 3, 4, 5, 6] leaking_requests leaking_targets
     = Some (Inr (structural_order example_searcher id leaking_requests leaking_targets)) \<and>
   structural_order example_searcher id leaking_requests leaking_targets
     = [url_entry 0 [''uri''], header_entry 0 ''referer'' [''uri''],
        body_entry 0 [''uri''], target_entry 1 [''uri'']]"
proof -
  have 1: "\<forall>p \<in> set (searches example_searcher id leaking_requests leaking_targets). \<not> isl p"
    by (simp add: findValue_defs)
  have n: "length (searches example_searcher id leaking_requests leaking_targets) = 7"
    by (simp add: findValue_defs)
  have 2: "set [0..<length (searches example_searcher id leaking_requests leaking_targets)]
      \<subseteq> set [6, 0, 5, 1, 4, 2, 3]"
    unfolding n by code_simp
  have 3: "set [0..<length (searches example_searcher id leaking_requests leaking_targets)]
      \<subseteq> set [0, 1, 2, 3, 4, 5, 6]"
    unfolding n by code_simp
  have s: "structural_order example_searcher id leaking_requests leaking_targets
     = [url_entry 0 [''uri''], header_entry 0 ''referer'' [''uri''],
        body_entry 0 [''uri''], target_entry 1 [''uri'']]"
    by (simp add: structural_order_def request_findings_def finding_def entry_of_def
        example_searcher_def request_to_def leaking_requests_def leaking_targets_def)
  show ?thesis
    using findValue_structural_order [OF 1 2] findValue_structural_order [OF 1 3] s by simp
qed


section \<open>Properties of the query handler\<close>

lemma first_of_append:
  "first_of (xs @ ys) = (case first_of xs of Some x \<Rightarrow> Some x | None \<Rightarrow> first_of ys)"
  by (cases xs) (simp_all add: first_of_def)

lemma first_of_simps: "first_of [] = None" "first_of (x # xs) = Some x"
  by (simp_all add: first_of_def)

lemma examineChildren_yields:
  "examineChildren m sel node =
     (if isElement node
      then (case shadowRoot node of
              Some nodeShadow \<Rightarrow> examineChildren m sel nodeShadow
            | None \<Rightarrow> [])
      else [])
     @ concat (map (yields m sel) (treeWalker node))"
  unfolding yields_def by (subst examineChildren.simps) (rule refl)


lemma first_or_cong:
  "x = y \<Longrightarrow> (x = None \<Longrightarrow> u = v) \<Longrightarrow>
   (case x of Some first \<Rightarrow> Some first | None \<Rightarrow> u) = (case y of Some first \<Rightarrow> Some first | None \<Rightarrow> v)"
  by (cases x) auto

lemma first_yield:
  "examineChildren_first m sel node = first_of (examineChildren m sel node)"
  "walk_first m sel nodes = first_of (concat (map (yields m sel) nodes))"
proof (induction m sel node and m sel nodes rule: examineChildren_first_walk_first.induct)
  case (1 m sel node)
  let ?sh = "if isElement node
      then (case shadowRoot node of
              Some nodeShadow \<Rightarrow> examineChildren_first m sel nodeShadow
            | None \<Rightarrow> None)
      else None"
  let ?shs = "if isElement node
      then (case shadowRoot node of
              Some nodeShadow \<Rightarrow> examineChildren m sel nodeShadow
            | None \<Rightarrow> [])
      else []"
  have a: "?sh = first_of ?shs"
    using 1(1) by (auto simp: first_of_simps split: option.splits)
  have b: "?sh = None \<Longrightarrow>
      walk_first m sel (treeWalker node) = first_of (concat (map (yields m sel) (treeWalker node)))"
    using 1(2) by simp
  have "examineChildren_first m sel node =
      (case ?sh of Some first \<Rightarrow> Some first | None \<Rightarrow> walk_first m sel (treeWalker node))"
    by (subst examineChildren_first.simps) (rule refl)
  also have "\<dots> = (case first_of ?shs of Some first \<Rightarrow> Some first
      | None \<Rightarrow> first_of (concat (map (yields m sel) (treeWalker node))))"
    using a b by (rule first_or_cong)
  also have "\<dots> = first_of (?shs @ concat (map (yields m sel) (treeWalker node)))"
    by (simp only: first_of_append)
  also have "\<dots> = first_of (examineChildren m sel node)"
    by (subst (2) examineChildren_yields) (rule refl)
  finally show ?case .
next
  case (2 m sel)
  show ?case by (simp add: first_of_simps)
next
  case (3 m sel child rest)
  show ?case
  proof (cases "matches m child sel")
    case True
    then show ?thesis by (simp add: yields_def first_of_simps)
  next
    case False
    let ?sh = "case shadowRoot child of
        Some nodeShadow \<Rightarrow> examineChildren_first m sel nodeShadow
      | None \<Rightarrow> None"
    let ?shs = "case shadowRoot child of
        Some nodeShadow \<Rightarrow> examineChildren m sel nodeShadow
      | None \<Rightarrow> []"
    have a: "?sh = first_of ?shs"
      using 3(1) [OF False] by (auto simp: first_of_simps split: option.splits)
    have b: "?sh = None \<Longrightarrow>
        walk_first m sel rest = first_of (concat (map (yields m sel) rest))"
      using 3(2) [OF False] by simp
    have "walk_first m sel (child # rest) =
        (case ?sh of Some first \<Rightarrow> Some first | None \<Rightarrow> walk_first m sel rest)"
      using False by simp
    also have "\<dots> = (case first_of ?shs of Some first \<Rightarrow> Some first
        | None \<Rightarrow> first_of (concat (map (yields m sel) rest)))"
      using a b by (rule first_or_cong)
    also have "\<dots> = first_of (?shs @ concat (map (yields m sel) rest))"
      by (simp only: first_of_append)
    also have "\<dots> = first_of (concat (map (yields m sel) (child # rest)))"
      using False by (simp add: yields_def)
    finally show ?thesis .
  qed
qed


lemma pierce_yields_head:
  "(if matches m c sel then [c] else [])
     @ (case shadowRoot c of Some nodeShadow \<Rightarrow> pierce m sel nodeShadow | None \<Rightarrow> [])
   = (if isElement c then pierce_yields m sel c else [])"
  by (cases c) (simp_all add: pierce_yields_def)

lemma pierce_walk:
  "pierce m sel n =
     (case shadowRoot n of Some nodeShadow \<Rightarrow> pierce m sel nodeShadow | None \<Rightarrow> [])
     @ concat (map (pierce_yields m sel) (treeWalker n))"
  "pierce_all m sel cs =
     concat (map (pierce_yields m sel)
       (filter isElement (concat (map (\<lambda>c. c # descendants c) cs))))"
proof (induction m sel n and m sel cs rule: pierce_pierce_all.induct)
  case (1 m sel a s cs)
  then show ?case by (cases s) (simp_all add: treeWalker_def)
next
  case (2 m sel cs)
  then show ?case by (simp add: treeWalker_def)
next
  case (3 m sel)
  show ?case by simp
next
  case (4 m sel c cs)
  have "pierce_all m sel (c # cs) =
      ((if matches m c sel then [c] else [])
        @ (case shadowRoot c of Some nodeShadow \<Rightarrow> pierce m sel nodeShadow | None \<Rightarrow> []))
      @ concat (map (pierce_yields m sel) (treeWalker c))
      @ pierce_all m sel cs"
    using 4(1) by simp
  also have "\<dots> = (if isElement c then pierce_yields m sel c else [])
      @ concat (map (pierce_yields m sel) (treeWalker c))
      @ pierce_all m sel cs"
    by (simp only: pierce_yields_head)
  also have "\<dots> = concat (map (pierce_yields m sel)
       (filter isElement (concat (map (\<lambda>c. c # descendants c) (c # cs)))))"
    using 4(2) by (simp add: treeWalker_def)
  finally show ?case .
qed

lemma examineChildren_pierce: "examineChildren m sel node = pierce m sel node"
proof (induction m sel node rule: examineChildren.induct)
  case (1 m sel node)
  have y: "map (yields m sel) (treeWalker node) = map (pierce_yields m sel) (treeWalker node)"
  proof (rule map_cong [OF refl])
    fix child assume "child \<in> set (treeWalker node)"
    then show "yields m sel child = pierce_yields m sel child"
      using 1(2) by (auto simp: yields_def pierce_yields_def split: option.splits)
  qed
  have h: "(if isElement node
      then (case shadowRoot node of
              Some nodeShadow \<Rightarrow> examineChildren m sel nodeShadow
            | None \<Rightarrow> [])
      else [])
    = (case shadowRoot node of Some nodeShadow \<Rightarrow> pierce m sel nodeShadow | None \<Rightarrow> [])"
    using 1(1) by (cases node) (auto split: option.splits)
  show ?case
    by (subst examineChildren_yields, subst pierce_walk(1)) (simp only: y h)
qed

lemma below_trans: "e \<in> below c \<Longrightarrow> c \<in> below n \<Longrightarrow> e \<in> below n"
  by (induction rule: below.induct) (auto intro: below.intros)

lemma pierce_sound:
  "e \<in> set (pierce m sel n) \<Longrightarrow> matches m e sel \<and> e \<in> below n"
  "e \<in> set (pierce_all m sel cs) \<Longrightarrow>
     matches m e sel \<and> (\<exists>c \<in> set cs. e = c \<or> e \<in> below c)"
proof (induction m sel n and m sel cs arbitrary: e and e rule: pierce_pierce_all.induct)
  case (1 m sel a s cs)
  from 1(3) consider
    (sh) kids where "s = Some kids" "e \<in> set (pierce_all m sel kids)"
    | (light) "e \<in> set (pierce_all m sel cs)"
    by (auto split: option.splits)
  then show ?case
  proof cases
    case sh
    from 1(1) [OF sh] obtain k where k: "matches m e sel" "k \<in> set kids" "e = k \<or> e \<in> below k"
      by blast
    have "Other kids \<in> below (Element a s cs)"
      using sh(1) by (auto intro: below.shadow)
    then have "k \<in> below (Element a s cs)"
      using k(2) by (auto intro: below.child_step)
    with k show ?thesis by (auto intro: below_trans)
  next
    case light
    from 1(2) [OF light] obtain k where k: "matches m e sel" "k \<in> set cs" "e = k \<or> e \<in> below k"
      by blast
    have "k \<in> below (Element a s cs)"
      using k(2) by (auto intro: below.child)
    with k show ?thesis by (auto intro: below_trans)
  qed
next
  case (2 m sel cs)
  from 2(1) [of e] 2(2) obtain k where k: "matches m e sel" "k \<in> set cs" "e = k \<or> e \<in> below k"
    by auto
  have "k \<in> below (Other cs)"
    using k(2) by (auto intro: below.child)
  with k show ?case by (auto intro: below_trans)
next
  case (3 m sel)
  then show ?case by simp
next
  case (4 m sel c cs)
  from 4(3) consider "matches m c sel" "e = c" | "e \<in> set (pierce m sel c)"
    | "e \<in> set (pierce_all m sel cs)"
    by (auto split: if_splits)
  then show ?case
  proof cases
    case 1
    then show ?thesis by simp
  next
    case 2
    from 4(1) [OF 2] show ?thesis by simp
  next
    case 3
    from 4(2) [OF 3] show ?thesis by auto
  qed
qed

lemma pierce_all_member:
  "c \<in> set cs \<Longrightarrow>
     set (pierce m sel c) \<subseteq> set (pierce_all m sel cs) \<and>
     (matches m c sel \<longrightarrow> c \<in> set (pierce_all m sel cs))"
  by (induction cs) auto

lemma pierce_all_childNodes: "set (pierce_all m sel (childNodes n)) \<subseteq> set (pierce m sel n)"
  by (cases n) auto

lemma pierce_shadowRoot:
  "shadowRoot n = Some s \<Longrightarrow>
     set (pierce m sel s) \<subseteq> set (pierce m sel n) \<and> \<not> matches m s sel"
  by (cases n) auto

lemma pierce_complete:
  "e \<in> below n \<Longrightarrow>
     set (pierce m sel e) \<subseteq> set (pierce m sel n) \<and>
     (matches m e sel \<longrightarrow> e \<in> set (pierce m sel n))"
proof (induction rule: below.induct)
  case (child c)
  then show ?case
    using pierce_all_member [of c "childNodes n" m sel] pierce_all_childNodes [of m sel n]
    by blast
next
  case (shadow s)
  then show ?case
    using pierce_shadowRoot [of n s m sel] by blast
next
  case (child_step k c)
  then show ?case
    using pierce_all_member [of c "childNodes k" m sel] pierce_all_childNodes [of m sel k]
    by blast
next
  case (shadow_step k s)
  then show ?case
    using pierce_shadowRoot [of k s m sel] by blast
qed

lemma set_pierce: "set (pierce m sel n) = {e \<in> below n. matches m e sel}"
  using pierce_sound(1) [of _ m sel n] pierce_complete [of _ n m sel] by blast

lemma descendants_below: "c \<in> set (descendants n) \<Longrightarrow> c \<in> below n"
proof (induction n arbitrary: c rule: measure_induct_rule [where f = size])
  case (less n)
  from less.prems obtain k where k: "k \<in> set (childNodes n)" "c = k \<or> c \<in> set (descendants k)"
    by (cases n) auto
  have "size k < size n" using k(1) by (rule size_child)
  with less.IH [of k c] k(2) have "c = k \<or> c \<in> below k" by auto
  moreover have "k \<in> below n" using k(1) by (rule below.child)
  ultimately show ?case by (auto intro: below_trans)
qed


text \<open>
  C8. \<^verbatim>\<open>queryAll\<close> returns the matching elements in the piercing depth-first order
  (\<open>pierce\<close>): the shadow tree of the root before its light-tree descendants, the shadow tree
  of each descendant element right after the element itself. The elements returned are
  exactly the matching nodes reachable from the root through child nodes and attached shadow
  roots (the root itself is not tested). In particular a match inside the shadow root of a
  light-tree element is returned.
\<close>

theorem queryAll_pierces:
  "queryAll m node sel = pierce m sel node \<and>
   set (queryAll m node sel) = {e \<in> below node. matches m e sel} \<and>
   (\<forall>host \<in> set (treeWalker node). \<forall>nodeShadow. shadowRoot host = Some nodeShadow \<longrightarrow>
      (\<forall>e \<in> set (treeWalker nodeShadow). matches m e sel \<longrightarrow>
         e \<in> set (queryAll m node sel)))"
proof (intro conjI ballI allI impI)
  show "queryAll m node sel = pierce m sel node"
    by (simp add: queryAll_def examineChildren_pierce)
next
  show "set (queryAll m node sel) = {e \<in> below node. matches m e sel}"
    by (simp add: queryAll_def examineChildren_pierce set_pierce)
next
  fix host nodeShadow e
  assume h: "host \<in> set (treeWalker node)" "shadowRoot host = Some nodeShadow"
    and e: "e \<in> set (treeWalker nodeShadow)" "matches m e sel"
  have "host \<in> below node"
    using h(1) by (simp add: treeWalker_def descendants_below)
  then have "nodeShadow \<in> below node"
    using h(2) by (rule below.shadow_step)
  moreover have "e \<in> below nodeShadow"
    using e(1) by (simp add: treeWalker_def descendants_below)
  ultimately have "e \<in> below node"
    by (auto intro: below_trans)
  then show "e \<in> set (queryAll m node sel)"
    using e(2) by (simp add: queryAll_def examineChildren_pierce set_pierce)
qed

theorem queryAll_pierces_witness:
  "queryAll tag_matches shadow_page ''input'' =
     [input_in_shadow, Element (''input'', 4) None [],
      Element (''input'', 5) None [Element (''b'', 6) None []], Element (''input'', 7) None []] \<and>
   pierce tag_matches ''input'' shadow_page = queryAll tag_matches shadow_page ''input'' \<and>
   shadow_host \<in> set (treeWalker shadow_page) \<and>
   input_in_shadow \<in> set (treeWalker (the (shadowRoot shadow_host))) \<and>
   input_in_shadow \<notin> set (treeWalker shadow_page) \<and>
   input_in_shadow \<in> {e \<in> below shadow_page. matches tag_matches e ''input''} \<and>
   queryAll tag_matches shadow_host ''input'' =
     [input_in_shadow, Element (''input'', 4) None [],
      Element (''input'', 5) None [Element (''b'', 6) None []]]"
proof -
  have 1: "queryAll tag_matches shadow_page ''input'' =
     [input_in_shadow, Element (''input'', 4) None [],
      Element (''input'', 5) None [Element (''b'', 6) None []], Element (''input'', 7) None []]"
    by code_simp
  have 2: "shadow_host \<in> set (treeWalker shadow_page)"
    by code_simp
  have 3: "input_in_shadow \<in> set (treeWalker (the (shadowRoot shadow_host)))"
    by code_simp
  have 4: "input_in_shadow \<notin> set (treeWalker shadow_page)"
    by code_simp
  have 5: "queryAll tag_matches shadow_host ''input'' =
     [input_in_shadow, Element (''input'', 4) None [],
      Element (''input'', 5) None [Element (''b'', 6) None []]]"
    by code_simp
  note t = queryAll_pierces [of tag_matches shadow_page "''input''"]
  have a: "pierce tag_matches ''input'' shadow_page = queryAll tag_matches shadow_page ''input''"
    using t by simp
  have b: "set (queryAll tag_matches shadow_page ''input'')
      = {e \<in> below shadow_page. matches tag_matches e ''input''}"
    using t by blast
  have "input_in_shadow \<in> set (queryAll tag_matches shadow_page ''input'')"
    unfolding 1 by simp
  then have c: "input_in_shadow \<in> {e \<in> below shadow_page. matches tag_matches e ''input''}"
    unfolding b .
  from 1 a 2 3 4 c 5 show ?thesis
    by (intro conjI)
qed

text \<open>
  C10. \<^verbatim>\<open>queryOne\<close> returns the first element of the list that \<^verbatim>\<open>queryAll\<close> returns on the
  same inputs, and \<^verbatim>\<open>null\<close> exactly when that list is empty.
\<close>

theorem queryOne_first_of_queryAll:
  "queryOne m node sel =
     (case queryAll m node sel of [] \<Rightarrow> None | first # _ \<Rightarrow> Some first) \<and>
   (queryOne m node sel = None) = (queryAll m node sel = [])"
  by (simp add: queryOne_def queryAll_def first_yield(1) first_of_def split: list.splits)

theorem queryOne_first_of_queryAll_witness:
  "queryOne tag_matches shadow_page ''input'' = Some input_in_shadow \<and>
   queryAll tag_matches shadow_page ''input'' \<noteq> [] \<and>
   queryOne tag_matches shadow_page ''table'' = None \<and>
   queryAll tag_matches shadow_page ''table'' = []"
proof -
  have 1: "queryAll tag_matches shadow_page ''input'' =
     [input_in_shadow, Element (''input'', 4) None [],
      Element (''input'', 5) None [Element (''b'', 6) None []], Element (''input'', 7) None []]"
    by code_simp
  have 2: "queryAll tag_matches shadow_page ''table'' = []"
    by code_simp
  show ?thesis
    using queryOne_first_of_queryAll [of tag_matches shadow_page "''input''"]
      queryOne_first_of_queryAll [of tag_matches shadow_page "''table''"] 1 2
    by simp
qed


section \<open>Properties of the unwrapper\<close>

lemma unwrapHandleEx_transparent:
  "\<forall>c \<in> set (asked_classes handle). shouldUnwrap c \<Longrightarrow>
   unwrapHandleEx shouldUnwrap handle = unwrapHandleEx (\<lambda>className. True) handle"
proof (induction shouldUnwrap handle rule: unwrapHandleEx.induct)
  case (1 shouldUnwrap handle)
  let ?ro = "remoteObject handle"
  note u = unwrapHandleEx.simps [of shouldUnwrap handle]
    unwrapHandleEx.simps [of "\<lambda>className. True" handle]
  note ac = asked_classes.simps [of handle]
  show ?case
  proof (cases "type ?ro = ''object'' \<and> (subtype ?ro \<in> set [None, Some ''proxy''] \<or> subtype ?ro = Some ''array'')")
    case False
    then show ?thesis
      by (auto simp: u)
  next
    case True
    show ?thesis
    proof (cases "getProperties handle")
      case (Inl e)
      have su: "subtype ?ro \<in> set [None, Some ''proxy''] \<Longrightarrow> shouldUnwrap (className ?ro)"
        using "1.prems" True by (simp add: ac)
      with True Inl show ?thesis
        by (auto simp: u)
    next
      case (Inr props)
      show ?thesis
      proof (cases "subtype ?ro \<in> set [None, Some ''proxy'']")
        case plain: True
        have ask: "\<And>k v. (k, v) \<in> set props \<Longrightarrow> \<forall>c \<in> set (asked_classes v). shouldUnwrap c"
          using "1.prems" True plain Inr by (simp add: ac)
        have su: "shouldUnwrap (className ?ro)"
          using "1.prems" True plain by (simp add: ac)
        have m: "map (\<lambda>(k, v). promise_then (Pair k) (unwrapHandleEx shouldUnwrap v)) props
            = map (\<lambda>(k, v). promise_then (Pair k) (unwrapHandleEx (\<lambda>className. True) v)) props"
          using "1.IH"(1) [OF _ _ plain su Inr] True ask by (intro map_cong) auto
        from True plain su Inr show ?thesis
          by (simp add: u m)
      next
        case array: False
        with True have s: "subtype ?ro = Some ''array''" "subtype ?ro \<noteq> Some ''null''"
          by auto
        have ask: "\<And>k v. (k, v) \<in> set props \<Longrightarrow> \<forall>c \<in> set (asked_classes v). shouldUnwrap c"
          using "1.prems" True array s Inr by (simp add: ac)
        have m: "map (\<lambda>(k, v). unwrapHandleEx shouldUnwrap v) props
            = map (\<lambda>(k, v). unwrapHandleEx (\<lambda>className. True) v) props"
          using "1.IH"(2) [OF _ _ array s(2) s(1) Inr] True ask by (intro map_cong) auto
        from True array s Inr show ?thesis
          by (simp add: u m)
      qed
    qed
  qed
qed


text \<open>
  No predicate that is true on exactly two class names makes the two functions agree on
  every handle.
\<close>

lemma unwrapHandle_no_two_class_predicate:
  assumes "a \<noteq> b" and "\<forall>c. p c = (c = a \<or> c = b)"
  shows "\<exists>handle :: ('e, 'v) JSHandle. unwrapHandle handle \<noteq> unwrapHandleEx p handle"
proof -
  obtain c where c: "\<not> p c"
  proof (cases "p None")
    case False
    then show ?thesis by (rule that)
  next
    case n: True
    show ?thesis
    proof (cases "p (Some [])")
      case False
      then show ?thesis by (rule that)
    next
      case e: True
      have "\<not> p (Some ''x'')"
        using assms n e by (metis list.distinct(1) option.distinct(1) option.inject)
      then show ?thesis by (rule that)
    qed
  qed
  let ?h = "JSHandle \<lparr>type = ''object'', subtype = None, className = c\<rparr> (Inr []) (Inl undefined)
    :: ('e, 'v) JSHandle"
  have "unwrapHandle ?h = Inr (Object [])"
    by (simp add: unwrapHandle_def unwrapHandleEx.simps [of _ ?h] promise_then_def)
  moreover have "unwrapHandleEx p ?h = Inr (Handle ?h)"
    using c by (simp add: unwrapHandleEx.simps [of _ ?h])
  ultimately have "unwrapHandle ?h \<noteq> unwrapHandleEx p ?h"
    by simp
  then show ?thesis ..
qed

text \<open>
  C9 (as amended). \<^verbatim>\<open>unwrapHandle\<close> and \<^verbatim>\<open>unwrapHandleEx\<close> run the same recursion and differ
  only in the predicate: \<^verbatim>\<open>unwrapHandle(h)\<close> is \<^verbatim>\<open>unwrapHandleEx(h, p)\<close> for the predicate
  \<open>p\<close> that is true on every class name. The predicate that is true on exactly two class
  names (\<^verbatim>\<open>Object\<close> and \<^verbatim>\<open>Proxy\<close>) is the default of \<^verbatim>\<open>unwrapHandleEx\<close>; with it the two
  functions agree on a handle whenever every class name asked about is one of the two.
\<close>

theorem unwrapHandle_policy:
  "unwrapHandle handle = unwrapHandleEx (\<lambda>className. True) handle \<and>
   unwrapHandleEx_default handle = unwrapHandleEx defaultShouldUnwrap handle \<and>
   {c. defaultShouldUnwrap c} = {Some ''Object'', Some ''Proxy''} \<and>
   ((\<forall>c \<in> set (asked_classes handle). defaultShouldUnwrap c) \<longrightarrow>
      unwrapHandle handle = unwrapHandleEx_default handle)"
proof (intro conjI impI)
  show "unwrapHandle handle = unwrapHandleEx (\<lambda>className. True) handle"
    by (simp add: unwrapHandle_def)
  show "unwrapHandleEx_default handle = unwrapHandleEx defaultShouldUnwrap handle"
    by (simp add: unwrapHandleEx_default_def)
  show "{c. defaultShouldUnwrap c} = {Some ''Object'', Some ''Proxy''}"
    by (auto simp: defaultShouldUnwrap_def)
  assume "\<forall>c \<in> set (asked_classes handle). defaultShouldUnwrap c"
  then have "unwrapHandleEx defaultShouldUnwrap handle = unwrapHandleEx (\<lambda>className. True) handle"
    by (rule unwrapHandleEx_transparent)
  then show "unwrapHandle handle = unwrapHandleEx_default handle"
    by (simp add: unwrapHandle_def unwrapHandleEx_default_def)
qed


theorem unwrapHandle_policy_witness:
  "asked_classes plain_object = [Some ''Object'', Some ''Proxy''] \<and>
   unwrapHandle plain_object = unwrapHandleEx_default plain_object \<and>
   unwrapHandle plain_object =
     Inr (Object [(''x'', Json ''1''),
                  (''y'', Array [Object [(''z'', Json ''2'')],
                     Handle (JSHandle \<lparr>type = ''function'', subtype = None, className = Some ''Function''\<rparr>
                       (Inr []) (Inr ''{}'')),
                     Null])])"
proof -
  have 1: "asked_classes plain_object = [Some ''Object'', Some ''Proxy'']"
    by code_simp
  have 2: "\<forall>c \<in> set (asked_classes plain_object). defaultShouldUnwrap c"
    unfolding 1 by (simp add: defaultShouldUnwrap_def)
  have 3: "unwrapHandleEx_default plain_object =
     Inr (Object [(''x'', Json ''1''),
                  (''y'', Array [Object [(''z'', Json ''2'')],
                     Handle (JSHandle \<lparr>type = ''function'', subtype = None, className = Some ''Function''\<rparr>
                       (Inr []) (Inr ''{}'')),
                     Null])])"
    by code_simp
  from unwrapHandle_policy [of plain_object] 2
  have 4: "unwrapHandle plain_object = unwrapHandleEx_default plain_object"
    by blast
  from 1 4 3 show ?thesis by simp
qed

text \<open>
  The claim as stated fails on an instance of a class \<^verbatim>\<open>Foo\<close>: \<^verbatim>\<open>unwrapHandle\<close> inlines
  it, \<^verbatim>\<open>unwrapHandleEx\<close> with the two-class predicate keeps the handle.
\<close>

theorem unwrapHandle_two_classes_counterexample:
  "unwrapHandle foo_instance = Inr (Object [(''x'', Json ''1'')]) \<and>
   unwrapHandleEx defaultShouldUnwrap foo_instance = Inr (Handle foo_instance) \<and>
   unwrapHandle foo_instance \<noteq> unwrapHandleEx defaultShouldUnwrap foo_instance"
proof -
  have 1: "unwrapHandle foo_instance = Inr (Object [(''x'', Json ''1'')])"
    by code_simp
  have 2: "unwrapHandleEx defaultShouldUnwrap foo_instance = Inr (Handle foo_instance)"
    by code_simp
  from 1 2 show ?thesis by simp
qed


section \<open>Properties of the report\<close>

subsection \<open>Frame stack\<close>

lemma display_frame_single:
  "stackFrameFile ext frame = ([(before, file)], after) \<Longrightarrow>
   display_frame ext (frame, frameInfo) prevFile =
     (before @ (if prevFile = Some file then arrow_down
                else thirdPartyInfoStr (case frameInfo of Some info \<Rightarrow> info | None \<Rightarrow> empty_info) @ file)
        @ after, Some file)"
  by (simp add: display_frame_def)

text \<open>
  C7 (as amended). For a stack of three consecutive frames of one file \<open>a\<close> followed by a
  frame of another file \<open>b\<close>, the pattern matching once in each frame, the display lines
  are, in display order: two lines with the repeat marker, then the third frame of \<open>a\<close>
  with its classification prefix, then the frame of \<open>b\<close> with its prefix. The frames are
  processed from the last to the first, so the classified line of a run is its last line
  and the markers stand above it. For the stack in the other orientation (the frame of
  \<open>b\<close> first) the lines are the frame of \<open>b\<close>, two markers, and the classified last
  frame of \<open>a\<close>. In both cases exactly two lines carry a file.
\<close>

theorem displayFrames_repeated_file:
  assumes "stackFrameFile ext f1 = ([(p1, a)], s1)"
    and "stackFrameFile ext f2 = ([(p2, a)], s2)"
    and "stackFrameFile ext f3 = ([(p3, a)], s3)"
    and "stackFrameFile ext f4 = ([(p4, b)], s4)"
    and "a \<noteq> b"
  shows "displayFrames ext [f1, f2, f3, f4] [i1, i2, i3, i4] =
      [p1 @ arrow_down @ s1,
       p2 @ arrow_down @ s2,
       p3 @ thirdPartyInfoStr (case i3 of Some info \<Rightarrow> info | None \<Rightarrow> empty_info) @ a @ s3,
       p4 @ thirdPartyInfoStr (case i4 of Some info \<Rightarrow> info | None \<Rightarrow> empty_info) @ b @ s4] \<and>
    displayFrames ext [f4, f1, f2, f3] [i4, i1, i2, i3] =
      [p4 @ thirdPartyInfoStr (case i4 of Some info \<Rightarrow> info | None \<Rightarrow> empty_info) @ b @ s4,
       p1 @ arrow_down @ s1,
       p2 @ arrow_down @ s2,
       p3 @ thirdPartyInfoStr (case i3 of Some info \<Rightarrow> info | None \<Rightarrow> empty_info) @ a @ s3]"
  using assms by (simp add: displayFrames_def display_frame_single)

theorem displayFrames_repeated_file_witness:
  "displayFrames example_externals [''a.js:1'', ''a.js:2'', ''a.js:3'', ''b.js:4'']
       [third_party_script, third_party_script, third_party_script, None] =
     [arrow_down @ '':1'', arrow_down @ '':2'', ''third party a.js:3'', ''b.js:4''] \<and>
   displayFrames example_externals [''b.js:4'', ''a.js:1'', ''a.js:2'', ''a.js:3'']
       [None, third_party_script, third_party_script, third_party_script] =
     [''b.js:4'', arrow_down @ '':1'', arrow_down @ '':2'', ''third party a.js:3'']"
proof -
  have 1: "stackFrameFile example_externals ''a.js:1'' = ([([], ''a.js'')], '':1'')"
    "stackFrameFile example_externals ''a.js:2'' = ([([], ''a.js'')], '':2'')"
    "stackFrameFile example_externals ''a.js:3'' = ([([], ''a.js'')], '':3'')"
    "stackFrameFile example_externals ''b.js:4'' = ([([], ''b.js'')], '':4'')"
    by (simp_all add: example_externals_def)
  have 2: "''a.js'' \<noteq> ''b.js''"
    by simp
  show ?thesis
    using displayFrames_repeated_file [OF 1 2, of third_party_script third_party_script
        third_party_script None]
    by (simp add: third_party_script_def thirdPartyInfoStr_def empty_info_def)
qed

text \<open>
  The order of the claim as stated (the classified \<open>a\<close> first, then the two markers, then
  \<open>b\<close>) and its mirror image are both different from what the stack \<open>a, a, a, b\<close>
  gives.
\<close>

theorem displayFrames_claimed_order_counterexample:
  "displayFrames example_externals [''a.js:1'', ''a.js:2'', ''a.js:3'', ''b.js:4'']
       [third_party_script, third_party_script, third_party_script, None] \<noteq>
     [''third party a.js:1'', arrow_down @ '':2'', arrow_down @ '':3'', ''b.js:4''] \<and>
   displayFrames example_externals [''a.js:1'', ''a.js:2'', ''a.js:3'', ''b.js:4'']
       [third_party_script, third_party_script, third_party_script, None] \<noteq>
     [''b.js:4'', arrow_down @ '':3'', arrow_down @ '':2'', ''third party a.js:1''] \<and>
   displayFrames example_externals [''a.js:1'', ''a.js:2'', ''a.js:3'', ''b.js:4'']
       [third_party_script, third_party_script, third_party_script, None] =
     [arrow_down @ '':1'', arrow_down @ '':2'', ''third party a.js:3'', ''b.js:4'']"
  by (simp add: displayFrames_def display_frame_def example_externals_def third_party_script_def
      thirdPartyInfoStr_def empty_info_def arrow_down_def)

subsection \<open>Grouping of the field value reads\<close>

lemma keys_push_item:
  "fst ` set (push_item key item result) = insert key (fst ` set result)"
  by (induction key item result rule: push_item.induct) auto

lemma distinct_push_item:
  "distinct (map fst result) \<Longrightarrow> distinct (map fst (push_item key item result))"
proof (induction result)
  case Nil
  show ?case by simp
next
  case (Cons kg result)
  obtain k g where kg: "kg = (k, g)" by (cases kg)
  show ?case
  proof (cases "k = key")
    case True
    with Cons.prems kg show ?thesis by simp
  next
    case False
    have "k \<notin> fst ` set (push_item key item result)"
      using Cons.prems kg False by (simp add: keys_push_item)
    with Cons kg False show ?thesis by simp
  qed
qed

lemma set_push_item:
  "(k, g) \<in> set (push_item key item result) \<Longrightarrow>
   (k, g) \<in> set result \<or> (k = key \<and> (g = [item] \<or> (\<exists>g'. (key, g') \<in> set result \<and> g = g' @ [item])))"
  by (induction key item result rule: push_item.induct) (auto split: if_splits)

lemma members_push_item: "members (push_item key item result) = insert item (members result)"
  by (induction key item result rule: push_item.induct) (auto simp: members_def)

lemma grouped_push_item:
  assumes "grouped groupFn result" and "groupFn item = Inr key"
  shows "grouped groupFn (push_item key item result)"
proof -
  have "\<And>k g. (k, g) \<in> set (push_item key item result) \<Longrightarrow>
      g \<noteq> [] \<and> (\<forall>x \<in> set g. groupFn x = Inr k)"
  proof -
    fix k g assume "(k, g) \<in> set (push_item key item result)"
    from set_push_item [OF this] assms show "g \<noteq> [] \<and> (\<forall>x \<in> set g. groupFn x = Inr k)"
      by (fastforce simp: grouped_def)
  qed
  then show ?thesis
    using assms(1) distinct_push_item [of result key item] by (auto simp: grouped_def)
qed

lemma groupBy_loop_grouped:
  "groupBy_loop groupFn list result = Inr groups \<Longrightarrow> grouped groupFn result \<Longrightarrow>
   grouped groupFn groups \<and> members groups = members result \<union> set list"
proof (induction list arbitrary: result)
  case Nil
  then show ?case by simp
next
  case (Cons item list)
  from Cons.prems(1) obtain key where key: "groupFn item = Inr key"
    and rest: "groupBy_loop groupFn list (push_item key item result) = Inr groups"
    by (auto split: sum.splits)
  have "grouped groupFn (push_item key item result)"
    using Cons.prems(2) key by (rule grouped_push_item)
  from Cons.IH [OF rest this] show ?case
    by (auto simp: members_push_item)
qed

lemma groupBy_grouped:
  "groupBy groupFn list = Inr groups \<Longrightarrow> grouped groupFn groups \<and> members groups = set list"
  using groupBy_loop_grouped [of groupFn list "[]" groups]
  by (simp add: groupBy_def grouped_def members_def)

lemma grouped_same_group:
  assumes "grouped groupFn groups" and "x \<in> members groups" and "y \<in> members groups"
  shows "(\<exists>(k, items) \<in> set groups. x \<in> set items \<and> y \<in> set items) = (groupFn x = groupFn y)"
proof
  assume "\<exists>(k, items) \<in> set groups. x \<in> set items \<and> y \<in> set items"
  then obtain k items where "(k, items) \<in> set groups" "x \<in> set items" "y \<in> set items"
    by auto
  with assms(1) have "groupFn x = Inr k" "groupFn y = Inr k"
    by (auto simp: grouped_def)
  then show "groupFn x = groupFn y" by simp
next
  assume eq: "groupFn x = groupFn y"
  from assms(2) obtain k g where x: "(k, g) \<in> set groups" "x \<in> set g"
    by (auto simp: members_def)
  from assms(3) obtain k' g' where y: "(k', g') \<in> set groups" "y \<in> set g'"
    by (auto simp: members_def)
  from assms(1) x y have "groupFn x = Inr k" "groupFn y = Inr k'"
    by (auto simp: grouped_def)
  with eq have "k' = k" by simp
  moreover have "distinct (map fst groups)"
    using assms(1) by (simp add: grouped_def)
  ultimately have "g' = g"
    using x(1) y(1) by (metis eq_key_imp_eq_value)
  with x y show "\<exists>(k, items) \<in> set groups. x \<in> set items \<and> y \<in> set items"
    by auto
qed

text \<open>
  C6 (as amended). The grouping key renders an absent \<^verbatim>\<open>selectorChain\<close> as the empty
  string. Two field-value reads of a tracked value that agree on field type, value and
  stack, one without a selector chain and one with a chain, are in the same group exactly
  when the chain renders to the empty string: an absent chain shares the bucket of the empty
  rendering and is apart from every chain with a non-empty rendering.
\<close>

theorem absent_selectorChain_empty_bucket:
  assumes "groupedCalls ext fieldsCollectorOptions savedCalls = Inr groups"
    and "c1 \<in> set savedCalls" and "c2 \<in> set savedCalls"
    and "description c1 = ''HTMLInputElement.prototype.value''"
    and "description c2 = ''HTMLInputElement.prototype.value''"
    and "fieldValue (custom c1) \<in> {email (fill fieldsCollectorOptions), password (fill fieldsCollectorOptions)}"
    and "fieldValue (custom c2) = fieldValue (custom c1)"
    and "fieldType (custom c2) = fieldType (custom c1)"
    and "callStack c2 = callStack c1"
    and "selectorChain (custom c1) = None"
    and "selectorChain (custom c2) = Some chain"
  shows "(\<exists>(key, calls) \<in> set groups. c1 \<in> set calls \<and> c2 \<in> set calls)
     = (selectorStr ext chain = [])"
proof -
  let ?calls = "filter (\<lambda>call. fieldValue (custom call)
        \<in> set [email (fill fieldsCollectorOptions), password (fill fieldsCollectorOptions)])
      (filter (\<lambda>call. description call = ''HTMLInputElement.prototype.value'') savedCalls)"
  have g: "groupBy (call_key ext) ?calls = Inr groups"
    using assms(1) by (simp add: groupedCalls_def)
  have inv: "grouped (call_key ext) groups" and mem: "members groups = set ?calls"
    using groupBy_grouped [OF g] by simp_all
  have m1: "c1 \<in> members groups"
    unfolding mem using assms(2,4,6) by simp
  have m2: "c2 \<in> members groups"
    unfolding mem using assms(3,5,6,7) by simp
  from m1 inv obtain k1 where k1: "call_key ext c1 = Inr k1"
    by (auto simp: members_def grouped_def)
  then obtain frames where frames: "callStack c1 = Some frames"
    by (auto simp: call_key_def split: option.splits)
  have "(call_key ext c1 = call_key ext c2) = (selectorStr ext chain = [])"
    using assms(7-11) frames by (simp add: call_key_def)
  then show ?thesis
    using grouped_same_group [OF inv m1 m2] by simp
qed

theorem absent_selectorChain_empty_bucket_witness:
  "groupedCalls example_externals example_options
       [password_read 1 None, password_read 2 (Some []), password_read 3 (Some [''#pw''])]
     = Inr [([CHR 0x00] @ ''password'' @ [CHR 0x00] @ ''hunter2'' @ [CHR 0x00] @ ''a.js:1'',
              [password_read 1 None, password_read 2 (Some [])]),
            (''#pw'' @ [CHR 0x00] @ ''password'' @ [CHR 0x00] @ ''hunter2'' @ [CHR 0x00] @ ''a.js:1'',
              [password_read 3 (Some [''#pw''])])] \<and>
   selectorStr example_externals [] = [] \<and>
   selectorStr example_externals [''#pw''] \<noteq> []"
proof -
  let ?calls = "[password_read 1 None, password_read 2 (Some []), password_read 3 (Some [''#pw''])]"
  let ?groups = "[([CHR 0x00] @ ''password'' @ [CHR 0x00] @ ''hunter2'' @ [CHR 0x00] @ ''a.js:1'',
              [password_read 1 None, password_read 2 (Some [])]),
            (''#pw'' @ [CHR 0x00] @ ''password'' @ [CHR 0x00] @ ''hunter2'' @ [CHR 0x00] @ ''a.js:1'',
              [password_read 3 (Some [''#pw''])])]"
  have g: "groupedCalls example_externals example_options ?calls = Inr ?groups"
    by (simp add: groupedCalls_def groupBy_def call_key_def example_externals_def
        example_options_def password_read_def nul_def newline_def)
  have s: "selectorStr example_externals [] = []" "selectorStr example_externals [''#pw''] \<noteq> []"
    by (simp_all add: example_externals_def)
  have "(\<exists>(key, calls) \<in> set ?groups.
        password_read 1 None \<in> set calls \<and> password_read 2 (Some []) \<in> set calls)
      = (selectorStr example_externals [] = [])"
    by (rule absent_selectorChain_empty_bucket [OF g])
      (simp_all add: password_read_def example_options_def)
  with g s show ?thesis by simp
qed

text \<open>
  The claim as stated asks for two groups; a read without a selector chain and a read with
  a chain that renders to the empty string end up in one group with both timestamps.
\<close>

theorem absent_selectorChain_counterexample:
  "selectorChain (custom (password_read 1 None)) = None \<and>
   selectorChain (custom (password_read 2 (Some []))) = Some [] \<and>
   selectorStr example_externals [] = [] \<and>
   fieldValueCalls example_externals example_options
       [password_read 1 None, password_read 2 (Some [])]
     = Inr [(password_read 1 None, [1, 2])]"
  by (simp add: fieldValueCalls_def groupedCalls_def groupBy_def call_key_def example_externals_def
      example_options_def password_read_def nul_def newline_def)


subsection \<open>Filter of the leaks\<close>

lemma try_filter_resolved:
  "\<forall>al \<in> set als. source_info al \<noteq> None \<Longrightarrow>
   try_filter important als = Inr (filter third_party_or_tracker als)"
  by (induction als) (auto simp: important_def third_party_or_tracker_def)

lemma write_leak_total:
  "source_info al \<noteq> None \<Longrightarrow> \<exists>s. write_leak ext started al = Inr s"
  by (auto simp: write_leak_def source_info_def Let_def split: option.splits)

lemma try_map_resolved:
  "\<forall>x \<in> set xs. \<exists>y. f x = Inr y \<Longrightarrow>
   try_map f xs = Inr (map (\<lambda>x. case f x of Inr y \<Rightarrow> y | Inl e \<Rightarrow> d) xs)"
  by (induction xs) auto

lemma write_each_rendered:
  assumes "\<forall>al \<in> set leaks. source_info al \<noteq> None"
  shows "write_each (write_leak ext started) leaks = Inr (rendered_leaks ext started leaks)"
proof -
  have "\<forall>al \<in> set leaks. \<exists>s. write_leak ext started al = Inr s"
  proof (intro ballI)
    fix al
    assume "al \<in> set leaks"
    with assms have "source_info al \<noteq> None"
      by simp
    then show "\<exists>s. write_leak ext started al = Inr s"
      by (rule write_leak_total)
  qed
  then have "try_map (write_leak ext started) leaks
      = Inr (map (\<lambda>al. case write_leak ext started al of Inr s \<Rightarrow> s | Inl e \<Rightarrow> []) leaks)"
    by (rule try_map_resolved)
  then show ?thesis
    by (simp add: write_each_def rendered_leaks_def)
qed

text \<open>
  C2 (as amended). \<^verbatim>\<open>hasDomainInfo\<close> looks at the first resolved leak only. When every
  leak resolves to a request or a visited target: if the first resolved location carries a
  defined \<^verbatim>\<open>thirdParty\<close> classification, the entries that are rendered
  (\<^verbatim>\<open>importantLeaks\<close>) are exactly those whose resolved source has
  \<^verbatim>\<open>thirdParty === true\<close> or \<^verbatim>\<open>tracker === true\<close>, in their order; otherwise no filter
  is applied and every entry is rendered. In particular nothing is filtered when no
  resolved location carries a classification. When an entry is left, the leak section of
  the report is the heading, which says ``to third parties'' exactly when the filter was
  applied, the rendering of these entries one after the other, and an empty line.
\<close>

theorem importantLeaks_first_location:
  assumes "try_map (annotate collectorData) lvs = Inr annotatedLeaks"
    and "\<forall>al \<in> set annotatedLeaks. source_info al \<noteq> None"
  shows "importantLeaks annotatedLeaks =
      Inr (if (case annotatedLeaks of [] \<Rightarrow> False | first # _ \<Rightarrow> classified first)
           then filter third_party_or_tracker annotatedLeaks
           else annotatedLeaks) \<and>
    (\<not> (\<exists>al \<in> set annotatedLeaks. classified al) \<longrightarrow>
       importantLeaks annotatedLeaks = Inr annotatedLeaks) \<and>
    (\<forall>leaks. importantLeaks annotatedLeaks = Inr leaks \<longrightarrow> leaks \<noteq> [] \<longrightarrow>
       leaks_section ext started collectorData (Some lvs) =
         Inr (writeln (emoji_info @ '' '' @ emoji_outbox @ '' Values were sent in web requests''
                @ (if (case annotatedLeaks of [] \<Rightarrow> False | first # _ \<Rightarrow> classified first)
                   then '' to third parties'' else []) @ '':'')
              @ rendered_leaks ext started leaks @ writeln []))"
proof -
  let ?has = "case annotatedLeaks of [] \<Rightarrow> False | first # _ \<Rightarrow> classified first"
  let ?kept = "if ?has then filter third_party_or_tracker annotatedLeaks else annotatedLeaks"
  have f: "try_filter important annotatedLeaks = Inr (filter third_party_or_tracker annotatedLeaks)"
    using assms(2) by (rule try_filter_resolved)
  have h: "hasDomainInfo annotatedLeaks = Inr ?has"
  proof (cases annotatedLeaks)
    case Nil
    then show ?thesis by (simp add: hasDomainInfo_def)
  next
    case (Cons first rest)
    with assms(2) obtain info where "source_info first = Some info"
      by auto
    with Cons show ?thesis
      by (simp add: hasDomainInfo_def classified_def)
  qed
  have 1: "importantLeaks annotatedLeaks = Inr ?kept"
    using f h by (simp add: importantLeaks_def)
  have "\<not> (\<exists>al \<in> set annotatedLeaks. classified al) \<longrightarrow> \<not> ?has"
    by (cases annotatedLeaks) simp_all
  with 1 have 2: "\<not> (\<exists>al \<in> set annotatedLeaks. classified al) \<longrightarrow>
      importantLeaks annotatedLeaks = Inr annotatedLeaks"
    by simp
  have 3: "\<forall>leaks. importantLeaks annotatedLeaks = Inr leaks \<longrightarrow> leaks \<noteq> [] \<longrightarrow>
       leaks_section ext started collectorData (Some lvs) =
         Inr (writeln (emoji_info @ '' '' @ emoji_outbox @ '' Values were sent in web requests''
                @ (if ?has then '' to third parties'' else []) @ '':'')
              @ rendered_leaks ext started leaks @ writeln [])"
  proof (intro allI impI)
    fix leaks
    assume i: "importantLeaks annotatedLeaks = Inr leaks" and n: "leaks \<noteq> []"
    have "set leaks \<subseteq> set annotatedLeaks"
      using i 1 by (auto split: if_splits)
    with assms(2) have "\<forall>al \<in> set leaks. source_info al \<noteq> None"
      by blast
    then have w: "write_each (write_leak ext started) leaks = Inr (rendered_leaks ext started leaks)"
      by (rule write_each_rendered)
    show "leaks_section ext started collectorData (Some lvs) =
         Inr (writeln (emoji_info @ '' '' @ emoji_outbox @ '' Values were sent in web requests''
                @ (if ?has then '' to third parties'' else []) @ '':'')
              @ rendered_leaks ext started leaks @ writeln [])"
      using assms(1) h i n w by (simp add: leaks_section_def)
  qed
  from 1 2 3 show ?thesis by (intro conjI)
qed

text \<open>
  A third-party leak followed by a classified first-party leak: the first location is
  classified, the filter keeps the third-party leak alone, and the section shows it.
\<close>

theorem importantLeaks_first_location_witness:
  "try_map (annotate mixed_data) [url_leak (Some 2) None, url_leak (Some 1) None] =
     Inr [third_party_leak, first_party_leak] \<and>
   source_info third_party_leak \<noteq> None \<and> source_info first_party_leak \<noteq> None \<and>
   classified third_party_leak \<and>
   importantLeaks [third_party_leak, first_party_leak] = Inr [third_party_leak] \<and>
   leaks_section example_externals 0 mixed_data
       (Some [url_leak (Some 2) None, url_leak (Some 1) None]) =
     Inr (writeln (emoji_info @ '' '' @ emoji_outbox
            @ '' Values were sent in web requests to third parties:'')
          @ writeln (emoji_watch @ ''1500s password sent in url of request to third party ''
              @ dquote @ ''https://t.example/?pw=s3cr3t'' @ dquote)
          @ writeln [])"
proof -
  have 1: "try_map (annotate mixed_data) [url_leak (Some 2) None, url_leak (Some 1) None] =
      Inr [third_party_leak, first_party_leak]"
    by (simp add: annotate_def mixed_data_def url_leak_def index_array_def first_party_leak_def
        third_party_leak_def)
  have 2: "\<forall>al \<in> set [third_party_leak, first_party_leak]. source_info al \<noteq> None"
    by (simp add: source_info_def first_party_leak_def third_party_leak_def)
  have 3: "classified third_party_leak"
    by (simp add: classified_def source_info_def classified_request_def third_party_leak_def
        ThirdPartyInfo.truncate_def)
  have 4: "filter third_party_or_tracker [third_party_leak, first_party_leak] = [third_party_leak]"
    by (simp add: third_party_or_tracker_def source_info_def classified_request_def
        first_party_leak_def third_party_leak_def ThirdPartyInfo.truncate_def)
  have d: "digits 1500 = ''1500''"
    by code_simp
  have 5: "rendered_leaks example_externals 0 [third_party_leak] =
      writeln (emoji_watch @ ''1500s password sent in url of request to third party ''
        @ dquote @ ''https://t.example/?pw=s3cr3t'' @ dquote)"
    by (simp add: rendered_leaks_def write_leak_def third_party_leak_def classified_request_def
        url_leak_def timeStr_def example_externals_def thirdPartyInfoStr_def part_str_def
        nonEmpty_def writeln_def d)
  from importantLeaks_first_location [OF 1 2, of example_externals 0] 3 4 5
  have "importantLeaks [third_party_leak, first_party_leak] = Inr [third_party_leak] \<and>
    leaks_section example_externals 0 mixed_data
       (Some [url_leak (Some 2) None, url_leak (Some 1) None]) =
     Inr (writeln (emoji_info @ '' '' @ emoji_outbox
            @ '' Values were sent in web requests to third parties:'')
          @ writeln (emoji_watch @ ''1500s password sent in url of request to third party ''
              @ dquote @ ''https://t.example/?pw=s3cr3t'' @ dquote)
          @ writeln [])"
    by simp
  with 1 2 3 show ?thesis by simp
qed

text \<open>
  The claim as stated filters as soon as one location is classified. With the unclassified
  request first and the classified first-party request second, the filter would keep no
  entry, and both are kept.
\<close>

theorem importantLeaks_any_location_counterexample:
  "try_map (annotate mixed_data) [url_leak (Some 0) None, url_leak (Some 1) None] =
     Inr [unclassified_leak, first_party_leak] \<and>
   classified first_party_leak \<and>
   filter third_party_or_tracker [unclassified_leak, first_party_leak] = [] \<and>
   importantLeaks [unclassified_leak, first_party_leak] =
     Inr [unclassified_leak, first_party_leak]"
  by (simp add: annotate_def mixed_data_def url_leak_def index_array_def classified_def
      third_party_or_tracker_def source_info_def classified_request_def ThirdPartyInfo.truncate_def
      importantLeaks_def hasDomainInfo_def first_party_leak_def unclassified_leak_def)


subsection \<open>The report on missing data\<close>




























text \<open>
  The leak entries come from \<^verbatim>\<open>findValue\<close>, and \<^verbatim>\<open>findValue\<close> gives an entry the index at
  which it met the request or the visited target. So the entries it returns for the
  collections of a crawl, an absent collection being searched as an empty one, resolve
  in that crawl, whatever leak type they are given.
\<close>

lemma requests_searches_bound:
  "Inr (Some e) \<in> set (concat (map (request_searches findValueIn str) (enumerate n rqs))) \<Longrightarrow>
   \<exists>i. requestIndex e = Some i \<and> n \<le> i \<and> i < n + length rqs"
proof -
  assume "Inr (Some e) \<in> set (concat (map (request_searches findValueIn str) (enumerate n rqs)))"
  then obtain i rq where m: "(i, rq) \<in> set (enumerate n rqs)"
    and e: "Inr (Some e) \<in> set (request_searches findValueIn str (i, rq))"
    by auto
  from m have "n \<le> i \<and> i < n + length rqs"
    by (simp add: in_set_enumerate_eq)
  with request_searches_index [OF e] show ?thesis
    by simp
qed

lemma findValue_entries_resolve:
  assumes "findValue findValueIn str order rqs (map url vts) = Some (Inr entries)"
    and "rqs = (case requests collectorData of None \<Rightarrow> [] | Some rs \<Rightarrow> rs)"
    and "vts = (case fieldsData collectorData of None \<Rightarrow> [] | Some fd \<Rightarrow> visitedTargets fd)"
    and "e \<in> set entries"
  shows "resolves collectorData (FindEntry.extend e \<lparr>leakType = t\<rparr>)"
proof -
  have "Inr (Some e) \<in> set (searches findValueIn str rqs (map url vts))"
    using findValue_sound [OF assms(1)] assms(4) by blast
  then consider
    (req) "Inr (Some e) \<in> set (concat (map (request_searches findValueIn str) (enumerate 0 rqs)))"
    | (tgt) "Inr (Some e) \<in> set (target_searches findValueIn str rqs (map url vts))"
    by (auto simp: searches_def)
  then show ?thesis
  proof cases
    case req
    from requests_searches_bound [OF req] obtain i where i: "requestIndex e = Some i" "i < length rqs"
      by auto
    from requests_searches_index [OF req] have j: "visitedTargetIndex e = None"
      by simp
    from i(2) assms(2) obtain rs where rs: "requests collectorData = Some rs" "rs = rqs"
      by (cases "requests collectorData") auto
    show ?thesis
      using i j rs
      by (simp add: resolves_def annotate_def index_array_def source_info_def FindEntry.defs)
  next
    case tgt
    from target_searches_index [OF tgt] obtain j where i: "requestIndex e = None"
      and j: "visitedTargetIndex e = Some j" "j < length vts"
      by auto
    from j(2) assms(3) obtain fd where fd: "fieldsData collectorData = Some fd"
      "visitedTargets fd = vts"
      by (cases "fieldsData collectorData") auto
    show ?thesis
      using i j fd
      by (simp add: resolves_def annotate_def index_array_def source_info_def FindEntry.defs)
  qed
qed





end
